theory Spec2Isabelle
  imports Complex_Main
begin

section \<open>Python values, text and calendar dates\<close>

text \<open>
  The season backfill and validation scripts of the repository are embedded as HOL
  functions.  Python's unbounded integers are \<open>int\<close> (counts are \<open>nat\<close>), text is
  \<open>string\<close>, a raised exception is the left summand of a sum type, and everything the
  scripts reach outside themselves (the upstream source, the table's constraints, the
  clock, the outcome of a commit) is an explicit argument.
\<close>

datatype error = ValueError | FetchError | CommitError | JSONDecodeError | DatabaseError

subsection \<open>Integers as decimal text\<close>

fun digits10 :: "nat \<Rightarrow> string" where
  "digits10 n = (if n < 10 then [''0123456789'' ! n]
                 else digits10 (n div 10) @ [''0123456789'' ! (n mod 10)])"

declare digits10.simps [simp del]

definition str_int :: "int \<Rightarrow> string" where
  \<comment> \<open>\<open>str(i)\<close>, also what an f-string prints for an integer\<close>
  "str_int i = (if i < 0 then CHR ''-'' # digits10 (nat (- i)) else digits10 (nat i))"

definition zero_pad :: "nat \<Rightarrow> string \<Rightarrow> string" where
  "zero_pad w s = replicate (w - length s) (CHR ''0'') @ s"

definition is_digit :: "char \<Rightarrow> bool" where
  "is_digit c = (c \<in> set ''0123456789'')"

definition digit_val :: "char \<Rightarrow> int" where
  "digit_val c = int (length (takeWhile (\<lambda>d. d \<noteq> c) ''0123456789''))"

definition int_of_digits :: "string \<Rightarrow> int" where
  "int_of_digits s = foldl (\<lambda>a c. 10 * a + digit_val c) 0 s"

subsection \<open>Dates\<close>

text \<open>
  A \<open>datetime.date\<close> is carried by its proleptic Gregorian ordinal
  (\<open>date.toordinal()\<close>): comparison of dates is comparison of ordinals and
  \<open>d + timedelta(days=1)\<close> is \<open>d + 1\<close>.  The conversions between ordinals and
  (year, month, day) follow the standard library's \<open>_ymd2ord\<close> and \<open>_ord2ymd\<close>.
\<close>

type_synonym date = int

definition is_leap :: "int \<Rightarrow> bool" where
  "is_leap y = (y mod 4 = 0 \<and> (y mod 100 \<noteq> 0 \<or> y mod 400 = 0))"

definition DAYS_IN_MONTH :: "int list" where
  "DAYS_IN_MONTH = [-1, 31, 28, 31, 30, 31, 30, 31, 31, 30, 31, 30, 31]"

definition DAYS_BEFORE_MONTH :: "int list" where
  "DAYS_BEFORE_MONTH = [-1, 0, 31, 59, 90, 120, 151, 181, 212, 243, 273, 304, 334]"

definition days_before_year :: "int \<Rightarrow> int" where
  "days_before_year year =
     (let y = year - 1 in y * 365 + y div 4 - y div 100 + y div 400)"

definition days_in_month :: "int \<Rightarrow> int \<Rightarrow> int" where
  "days_in_month year month =
     (if month = 2 \<and> is_leap year then 29 else DAYS_IN_MONTH ! nat month)"

definition days_before_month :: "int \<Rightarrow> int \<Rightarrow> int" where
  "days_before_month year month =
     DAYS_BEFORE_MONTH ! nat month + (if month > 2 \<and> is_leap year then 1 else 0)"

definition ymd2ord :: "int \<Rightarrow> int \<Rightarrow> int \<Rightarrow> date" where
  "ymd2ord year month day = days_before_year year + days_before_month year month + day"

definition ord2ymd :: "date \<Rightarrow> int \<times> int \<times> int" where
  "ord2ymd n =
     (let n0 = n - 1;
          n400 = n0 div 146097; r400 = n0 mod 146097;
          n100 = r400 div 36524; r100 = r400 mod 36524;
          n4 = r100 div 1461; r4 = r100 mod 1461;
          n1 = r4 div 365; r1 = r4 mod 365;
          year = n400 * 400 + 1 + n100 * 100 + n4 * 4 + n1
      in if n1 = 4 \<or> n100 = 4 then (year - 1, 12, 31)
         else
           let leapyear = (n1 = 3 \<and> (n4 \<noteq> 24 \<or> n100 = 3));
               month = (r1 + 50) div 32;
               preceding = DAYS_BEFORE_MONTH ! nat month
                             + (if month > 2 \<and> leapyear then 1 else 0)
           in if preceding > r1
              then let month' = month - 1;
                       preceding' = preceding - (DAYS_IN_MONTH ! nat month'
                                      + (if month' = 2 \<and> leapyear then 1 else 0))
                   in (year, month', r1 - preceding' + 1)
              else (year, month, r1 - preceding + 1))"

definition strftime :: "date \<Rightarrow> string" where
  \<comment> \<open>\<open>d.strftime('%Y-%m-%d')\<close>, for the four-digit years the scripts work with\<close>
  "strftime d =
     (case ord2ymd d of (y, m, dd) \<Rightarrow>
        zero_pad 4 (str_int y) @ ''-'' @ zero_pad 2 (str_int m) @ ''-'' @ zero_pad 2 (str_int dd))"

definition month_token :: "string \<Rightarrow> bool" where
  \<comment> \<open>the directive \<open>%m\<close>: \<open>1[0-2]|0[1-9]|[1-9]\<close>\<close>
  "month_token t =
     (case t of
        [a] \<Rightarrow> a \<in> set ''123456789''
      | [a, b] \<Rightarrow> (a = CHR ''1'' \<and> b \<in> set ''012'') \<or> (a = CHR ''0'' \<and> b \<in> set ''123456789'')
      | _ \<Rightarrow> False)"

definition day_token :: "string \<Rightarrow> bool" where
  \<comment> \<open>the directive \<open>%d\<close>: \<open>3[0-1]|[1-2]\d|0[1-9]|[1-9]| [1-9]\<close>\<close>
  "day_token t =
     (case t of
        [a] \<Rightarrow> a \<in> set ''123456789''
      | [a, b] \<Rightarrow> (a = CHR ''3'' \<and> b \<in> set ''01'') \<or> (a \<in> set ''12'' \<and> is_digit b)
                  \<or> (a = CHR ''0'' \<and> b \<in> set ''123456789'')
                  \<or> (a = CHR '' '' \<and> b \<in> set ''123456789'')
      | _ \<Rightarrow> False)"

definition strptime_ymd :: "string \<Rightarrow> date option" where
  \<comment> \<open>\<open>datetime.strptime(s, '%Y-%m-%d').date()\<close>; \<open>None\<close> stands for the \<open>ValueError\<close>\<close>
  "strptime_ymd s =
     (let ytok = take 4 s; rest = drop 5 s;
          mtok = takeWhile (\<lambda>c. c \<noteq> CHR ''-'') rest;
          dtok = drop (length mtok + 1) rest;
          year = int_of_digits ytok;
          month = int_of_digits mtok;
          day = int_of_digits (filter is_digit dtok)
      in if length ytok = 4 \<and> list_all is_digit ytok
            \<and> take 1 (drop 4 s) = ''-''
            \<and> month_token mtok
            \<and> take 1 (drop (length mtok) rest) = ''-''
            \<and> day_token dtok
            \<and> 1 \<le> year \<and> day \<le> days_in_month year month
         then Some (ymd2ord year month day) else None)"

section \<open>The data collector (\<open>services/data_collector.py\<close>)\<close>

subsection \<open>Raw upstream rows and their cleaned form\<close>

text \<open>
  A row of the upstream frame is a dictionary from column names to scalars.  The
  scalars that matter to the collector are: \<open>None\<close>, a missing-value marker
  (\<open>pd.isna\<close>), an integer (of Python or of numpy), text, and a timestamp, which is
  carried by the text its \<open>isoformat()\<close> returns.  Finite floating-point measurements
  only travel inside the payload and are not modelled.
\<close>

datatype rval = RNone | RNaN | RInt int | RStr string | RTimestamp string

datatype pyval = PNone | PInt int | PStr string

type_synonym raw_row = "(string \<times> rval) list"

type_synonym statcast_json = "(string \<times> pyval) list"

fun clean_value :: "rval \<Rightarrow> pyval" where
  \<comment> \<open>the loop "Handle NaN values and convert timestamps"\<close>
  "clean_value RNone = PNone"
| "clean_value RNaN = PNone"
| "clean_value (RTimestamp stamp) = PStr stamp"
| "clean_value (RInt i) = PInt i"
| "clean_value (RStr s) = PStr s"

definition to_json :: "raw_row \<Rightarrow> statcast_json" where
  "to_json row = map (\<lambda>(k, v). (k, clean_value v)) row"

definition dict_get :: "statcast_json \<Rightarrow> string \<Rightarrow> pyval" where
  \<comment> \<open>\<open>d.get(k)\<close>: \<open>None\<close> for a key that is not there\<close>
  "dict_get d k = (case map_of d k of None \<Rightarrow> PNone | Some v \<Rightarrow> v)"

fun truthy :: "pyval \<Rightarrow> bool" where
  "truthy PNone = False"
| "truthy (PInt i) = (i \<noteq> 0)"
| "truthy (PStr s) = (s \<noteq> [])"

definition or_zero :: "pyval \<Rightarrow> pyval" where
  \<comment> \<open>\<open>v or 0\<close>\<close>
  "or_zero v = (if truthy v then v else PInt 0)"

fun format_value :: "pyval \<Rightarrow> string" where
  \<comment> \<open>what an f-string prints\<close>
  "format_value PNone = ''None''"
| "format_value (PInt i) = str_int i"
| "format_value (PStr s) = s"

definition make_pitch_id :: "statcast_json \<Rightarrow> string" where
  "make_pitch_id j =
     (let game_pk = dict_get j ''game_pk'';
          play_id = or_zero (dict_get j ''play_id'');
          pitch_number = or_zero (dict_get j ''pitch_number'');
          at_bat_number = or_zero (dict_get j ''at_bat_number'');
          inning = or_zero (dict_get j ''inning'')
      in format_value game_pk @ ''_'' @ format_value play_id @ ''_''
           @ format_value pitch_number @ ''_'' @ format_value at_bat_number @ ''_''
           @ format_value inning)"

subsection \<open>The shared date parser\<close>

datatype log_entry =
    CouldNotParseDate string
  | UnknownDateFormat pyval
  | FailedToInsertRecord nat
  | ErrorStoringStatcastData
  | ErrorCollectingStatcastData

text \<open>
  The log keeps the warnings and errors of the collector, one constructor per call of
  \<open>logger.warning\<close> or \<open>logger.error\<close>; the progress lines written with
  \<open>logger.info\<close> are left out.

  \<open>_convert_to_date\<close> parses text with \<open>datetime.fromisoformat\<close> when it contains a
  \<open>T\<close> and with \<open>strptime('%Y-%m-%d')\<close> otherwise.  The grammar that
  \<open>fromisoformat\<close> accepts differs between releases of the standard library, so the
  function is an argument: \<open>fromiso s\<close> is the date of
  \<open>datetime.fromisoformat(s)\<close>, or \<open>None\<close> where it raises \<open>ValueError\<close>.  After
  cleaning no value is a date or timestamp object any more, so those branches of
  \<open>_convert_to_date\<close> are not reached from the store.
\<close>

definition replace_Z :: "string \<Rightarrow> string" where
  \<comment> \<open>\<open>s.replace('Z', '+00:00')\<close>\<close>
  "replace_Z s = concat (map (\<lambda>c. if c = CHR ''Z'' then ''+00:00'' else [c]) s)"

fun convert_to_date :: "(string \<Rightarrow> date option) \<Rightarrow> pyval \<Rightarrow> date option \<times> log_entry list" where
  "convert_to_date fromiso PNone = (None, [])"
| "convert_to_date fromiso (PStr s) =
     (case (if CHR ''T'' \<in> set s then fromiso (replace_Z s) else strptime_ymd s) of
        Some d \<Rightarrow> (Some d, [])
      | None \<Rightarrow> (None, [CouldNotParseDate s]))"
| "convert_to_date fromiso (PInt i) = (None, [UnknownDateFormat (PInt i)])"

subsection \<open>The table and the upsert\<close>

record pitch_row =
  game_pk :: pyval
  pitch_id :: string
  game_date :: "date option"
  batter_id :: pyval
  pitcher_id :: pyval
  statcast_data :: statcast_json
  pitch_type :: pyval
  release_speed :: pyval
  events :: pyval
  launch_speed :: pyval
  launch_angle :: pyval
  hit_distance_sc :: pyval

type_synonym table = "pitch_row list"

text \<open>
  The table \<open>statcast_pitches\<close> is a list of rows in insertion order.  Its declaration
  is not part of the sources; what it rejects is an argument \<open>accepts\<close> (a
  \<open>NOT NULL\<close> column, a type that does not fit).  The columns \<open>created_at\<close> and
  \<open>updated_at\<close> only hold the clock and are left out.  Each \<open>INSERT\<close> takes effect on
  its own, as the \<open>continue\<close> of the collector expects: a rejected statement leaves the
  rows stored before it in place.
\<close>

definition upsert :: "pitch_row \<Rightarrow> table \<Rightarrow> table" where
  \<comment> \<open>\<open>INSERT ... ON CONFLICT (pitch_id) DO UPDATE SET statcast_data = EXCLUDED.statcast_data\<close>\<close>
  "upsert r db =
     (if pitch_id r \<in> set (map pitch_id db)
      then map (\<lambda>old. if pitch_id old = pitch_id r
                        then old\<lparr>statcast_data := statcast_data r\<rparr> else old) db
      else db @ [r])"

definition count_by_date :: "table \<Rightarrow> date \<Rightarrow> nat" where
  \<comment> \<open>\<open>SELECT COUNT(*) FROM statcast_pitches WHERE game_date = :target_date\<close>\<close>
  "count_by_date db d = length (filter (\<lambda>r. game_date r = Some d) db)"

definition count_by_batter :: "table \<Rightarrow> int \<Rightarrow> date \<Rightarrow> date \<Rightarrow> nat" where
  "count_by_batter db player_id start_date end_date =
     length (filter (\<lambda>r. batter_id r = PInt player_id
                           \<and> (case game_date r of None \<Rightarrow> False
                                | Some d \<Rightarrow> start_date \<le> d \<and> d \<le> end_date)) db)"

definition make_row :: "(string \<Rightarrow> date option) \<Rightarrow> raw_row \<Rightarrow> pitch_row \<times> log_entry list" where
  "make_row fromiso row =
     (let j = to_json row;
          raw_game_date = dict_get j ''game_date'';
          conv = (if raw_game_date \<noteq> PNone then convert_to_date fromiso raw_game_date
                  else (None, []))
      in (\<lparr>game_pk = dict_get j ''game_pk'',
           pitch_id = make_pitch_id j,
           game_date = fst conv,
           batter_id = dict_get j ''batter'',
           pitcher_id = dict_get j ''pitcher'',
           statcast_data = j,
           pitch_type = dict_get j ''pitch_type'',
           release_speed = dict_get j ''release_speed'',
           events = dict_get j ''events'',
           launch_speed = dict_get j ''launch_speed'',
           launch_angle = dict_get j ''launch_angle'',
           hit_distance_sc = dict_get j ''hit_distance_sc''\<rparr>, snd conv))"

record store_state =
  st_table :: table
  records_processed :: nat
  records_inserted :: nat
  st_log :: "log_entry list"

definition store_record ::
  "(string \<Rightarrow> date option) \<Rightarrow> (pitch_row \<Rightarrow> bool) \<Rightarrow> store_state \<Rightarrow> raw_row \<Rightarrow> store_state" where
  \<comment> \<open>one turn of the loop over \<open>df.iterrows()\<close>\<close>
  "store_record fromiso accepts st row =
     (let n = records_processed st + 1;
          (r, warnings) = make_row fromiso row
      in if accepts r
         then st\<lparr>st_table := upsert r (st_table st), records_processed := n,
                 records_inserted := records_inserted st + 1,
                 st_log := st_log st @ warnings\<rparr>
         else st\<lparr>records_processed := n,
                 st_log := st_log st @ warnings @ [FailedToInsertRecord n]\<rparr>)"

definition store_loop ::
  "(string \<Rightarrow> date option) \<Rightarrow> (pitch_row \<Rightarrow> bool) \<Rightarrow> raw_row list \<Rightarrow> table \<Rightarrow> store_state" where
  "store_loop fromiso accepts df db =
     foldl (store_record fromiso accepts) 
       \<lparr>st_table = db, records_processed = 0, records_inserted = 0, st_log = []\<rparr> df"

definition store_statcast_data ::
  "(string \<Rightarrow> date option) \<Rightarrow> (pitch_row \<Rightarrow> bool) \<Rightarrow> bool \<Rightarrow> raw_row list \<Rightarrow> table
     \<Rightarrow> (error + table) \<times> log_entry list" where
  \<comment> \<open>\<open>commit_ok\<close> is the outcome of \<open>session.commit()\<close>; when it raises, the session is
      rolled back and the exception goes on to the caller\<close>
  "store_statcast_data fromiso accepts commit_ok df db =
     (let st = store_loop fromiso accepts df db
      in if commit_ok then (Inr (st_table st), st_log st)
         else (Inl CommitError, st_log st @ [ErrorStoringStatcastData]))"

subsection \<open>Collecting one date\<close>

datatype fetch = FetchFailed | Fetched "raw_row list"

text \<open>
  \<open>pyb.statcast(start_dt, end_dt)\<close> is the upstream source: it raises
  (\<open>FetchFailed\<close>) or returns a frame, which is empty on a day without games.
\<close>

definition collect_statcast_data ::
  "(string \<Rightarrow> date option) \<Rightarrow> (pitch_row \<Rightarrow> bool) \<Rightarrow> (string \<Rightarrow> fetch) \<Rightarrow> bool
     \<Rightarrow> string \<Rightarrow> table \<Rightarrow> (error + table) \<times> log_entry list" where
  "collect_statcast_data fromiso accepts statcast commit_ok date db =
     (case convert_to_date fromiso (PStr date) of
        (None, lg) \<Rightarrow> (Inl ValueError, lg @ [ErrorCollectingStatcastData])
      | (Some date_obj, lg) \<Rightarrow>
          (case statcast (strftime date_obj) of
             FetchFailed \<Rightarrow> (Inl FetchError, lg @ [ErrorCollectingStatcastData])
           | Fetched frame \<Rightarrow>
               if frame = [] then (Inr db, lg)
               else (case store_statcast_data fromiso accepts commit_ok frame db of
                       (Inl e, slog) \<Rightarrow> (Inl e, lg @ slog @ [ErrorCollectingStatcastData])
                     | (Inr db', slog) \<Rightarrow> (Inr db', lg @ slog))))"

section \<open>Completeness of a date or of a player\<close>

text \<open>
  The percentage is a Python float; the model computes it exactly, as a rational.  The
  reports store it rounded to two decimals (\<open>round(completeness, 2)\<close>); the model keeps the
  value that the status is decided on.  The three scripts' expressions for it are the
  same text.
\<close>

datatype vstatus = Complete | Incomplete | Missing | NoGames | VError

definition completeness_pct :: "nat \<Rightarrow> nat \<Rightarrow> rat" where
  \<comment> \<open>\<open>(actual_records / expected_records * 100) if expected_records > 0 else 0\<close>\<close>
  "completeness_pct actual_records expected_records =
     (if expected_records > 0
      then of_nat actual_records / of_nat expected_records * 100 else 0)"

definition status_of :: "rat \<Rightarrow> rat \<Rightarrow> vstatus" where
  \<comment> \<open>\<open>'complete' if c >= threshold else 'incomplete' if c > 0 else 'missing'\<close>\<close>
  "status_of threshold c =
     (if c \<ge> threshold then Complete else if c > 0 then Incomplete else Missing)"

section \<open>The season backfill (\<open>complete_season_backfill.py\<close>)\<close>

record collector =
  season_start :: date
  season_end :: date

definition init_collector :: "date \<Rightarrow> collector" where
  \<comment> \<open>\<open>ComprehensiveSeasonCollector.__init__\<close>; \<open>today\<close> is \<open>date.today()\<close>\<close>
  "init_collector today =
     (let c = \<lparr>season_start = ymd2ord 2025 3 15, season_end = ymd2ord 2025 11 15\<rparr>
      in if season_end c > today then c\<lparr>season_end := today\<rparr> else c)"

record progress =
  completed_dates :: "string list"
  failed_dates :: "string list"
  total_records_collected :: int
  games_processed :: int
  last_update :: "string option"

text \<open>
  The progress file holds the JSON text of a progress dictionary, or nothing, or, after
  \<open>open(file, 'w')\<close> has truncated it and before \<open>json.dump\<close> has written the whole
  text, a torn text that \<open>json.load\<close> rejects.
\<close>

datatype checkpoint_file = NoFile | Json progress | Torn

definition load_progress :: "checkpoint_file \<Rightarrow> error + progress" where
  "load_progress f =
     (case f of
        NoFile \<Rightarrow> Inr \<lparr>completed_dates = [], failed_dates = [],
                        total_records_collected = 0, games_processed = 0,
                        last_update = None\<rparr>
      | Json p \<Rightarrow> Inr p
      | Torn \<Rightarrow> Inl JSONDecodeError)"

record date_validation =
  dv_status :: vstatus
  dv_expected_records :: "nat option"
  dv_actual_records :: "nat option"
  dv_completeness :: "rat option"
  dv_needs_collection :: bool

definition validate_date_collection :: "(string \<Rightarrow> fetch) \<Rightarrow> table \<Rightarrow> date \<Rightarrow> date_validation" where
  "validate_date_collection statcast db target_date =
     (case statcast (strftime target_date) of
        FetchFailed \<Rightarrow>
          \<lparr>dv_status = VError, dv_expected_records = None, dv_actual_records = None,
           dv_completeness = None, dv_needs_collection = True\<rparr>
      | Fetched expected_data \<Rightarrow>
          if expected_data = []
          then \<lparr>dv_status = NoGames, dv_expected_records = Some 0, dv_actual_records = Some 0,
                dv_completeness = Some 100, dv_needs_collection = False\<rparr>
          else
            let expected_records = length expected_data;
                actual_records = count_by_date db target_date;
                completeness = completeness_pct actual_records expected_records
            in \<lparr>dv_status = status_of (995 / 10) completeness,
                dv_expected_records = Some expected_records,
                dv_actual_records = Some actual_records,
                dv_completeness = Some completeness,
                dv_needs_collection = (completeness < 995 / 10)\<rparr>)"

datatype phase = Collecting | Validating

record world =
  w_fromiso :: "string \<Rightarrow> date option"
  w_accepts :: "pitch_row \<Rightarrow> bool"
  w_statcast :: "string \<Rightarrow> nat \<Rightarrow> phase \<Rightarrow> fetch"
  w_commit_ok :: "string \<Rightarrow> nat \<Rightarrow> bool"
  w_clock :: "nat \<Rightarrow> string"

text \<open>
  A \<open>world\<close> fixes what the surroundings do during one run: the library's ISO parser,
  what the table accepts, what the upstream source answers for a date at the attempt
  with a given retry count (once when collecting, once when validating), whether the
  commit of that attempt goes through, and what the clock reads.

  The history of a run is a list of events, oldest first: the attempts, the return of
  \<open>collect_statcast_data\<close> without an exception (nothing to store, or stored and
  committed), the collector's warnings and errors, the updates of the progress
  dictionary, and every content the progress file takes.
\<close>

datatype event =
    Attempt date nat
  | Collected date
  | Log log_entry
  | MarkedComplete date
  | MarkedFailed date
  | Disk checkpoint_file

definition max_retries :: nat where
  "max_retries = 3"

datatype outcome = Succeeded | NotComplete | Raised

definition attempt :: "world \<Rightarrow> date \<Rightarrow> nat \<Rightarrow> table \<Rightarrow> outcome \<times> table \<times> event list" where
  \<comment> \<open>the body of \<open>collect_single_date\<close> up to the decision to retry\<close>
  "attempt w target_date retry_count db =
     (let date_str = strftime target_date
      in case collect_statcast_data (w_fromiso w) (w_accepts w)
                (\<lambda>s. w_statcast w s retry_count Collecting)
                (w_commit_ok w date_str retry_count) date_str db of
           (Inl e, lg) \<Rightarrow> (Raised, db, Attempt target_date retry_count # map Log lg)
         | (Inr db', lg) \<Rightarrow>
             let validation = validate_date_collection
                                (\<lambda>s. w_statcast w s retry_count Validating) db' target_date;
                 ev = Attempt target_date retry_count # map Log lg @ [Collected target_date]
             in if dv_status validation = Complete then (Succeeded, db', ev)
                else if dv_status validation = NoGames then (Succeeded, db', ev)
                else (NotComplete, db', ev))"

function collect_single_date :: "world \<Rightarrow> date \<Rightarrow> nat \<Rightarrow> table \<Rightarrow> bool \<times> table \<times> event list" where
  "collect_single_date w target_date retry_count db =
     (case attempt w target_date retry_count db of
        (Succeeded, db', ev) \<Rightarrow> (True, db', ev)
      | (NotComplete, db', ev) \<Rightarrow>
          if retry_count < max_retries
          then (case collect_single_date w target_date (retry_count + 1) db' of
                  (b, db'', ev') \<Rightarrow> (b, db'', ev @ ev'))
          else (False, db', ev)
      | (Raised, db', ev) \<Rightarrow>
          if retry_count < max_retries
          then (case collect_single_date w target_date (retry_count + 1) db' of
                  (b, db'', ev') \<Rightarrow> (b, db'', ev @ ev'))
          else (False, db', ev))"
  by pat_completeness auto
termination
  by (relation "measure (\<lambda>(w, d, k, db). max_retries - k)") auto

declare collect_single_date.simps [simp del]

subsection \<open>The dates still to process\<close>

function remaining_dates :: "date \<Rightarrow> date \<Rightarrow> string list \<Rightarrow> date list" where
  \<comment> \<open>the loop \<open>while current_date <= self.season_end\<close> that fills \<open>all_dates\<close>\<close>
  "remaining_dates current_date end_date completed =
     (if current_date \<le> end_date
      then (if strftime current_date \<notin> set completed then [current_date] else [])
             @ remaining_dates (current_date + 1) end_date completed
      else [])"
  by pat_completeness auto
termination
  by (relation "measure (\<lambda>(c, e, done). nat (e + 1 - c))") auto

declare remaining_dates.simps [simp del]

subsection \<open>The run\<close>

record run_state =
  rs_db :: table
  rs_progress :: progress
  rs_file :: checkpoint_file
  rs_trace :: "event list"
  successful_dates :: nat
  failed_count :: nat

definition open_for_writing :: "run_state \<Rightarrow> run_state" where
  \<comment> \<open>\<open>open(self.progress_file, 'w')\<close>: the file is emptied at once\<close>
  "open_for_writing st = st\<lparr>rs_file := Torn, rs_trace := rs_trace st @ [Disk Torn]\<rparr>"

definition json_dump :: "progress \<Rightarrow> run_state \<Rightarrow> run_state" where
  \<comment> \<open>\<open>json.dump(progress, f, indent=2)\<close> and the end of the \<open>with\<close> block\<close>
  "json_dump p st = st\<lparr>rs_file := Json p, rs_trace := rs_trace st @ [Disk (Json p)]\<rparr>"

definition save_progress :: "world \<Rightarrow> run_state \<Rightarrow> run_state" where
  "save_progress w st =
     (let p = (rs_progress st)\<lparr>last_update := Some (w_clock w (length (rs_trace st)))\<rparr>
      in json_dump p (open_for_writing (st\<lparr>rs_progress := p\<rparr>)))"

definition mark_complete :: "string \<Rightarrow> progress \<Rightarrow> progress" where
  "mark_complete date_str p =
     (let p' = p\<lparr>completed_dates := completed_dates p @ [date_str]\<rparr>
      in if date_str \<in> set (failed_dates p')
         then p'\<lparr>failed_dates := remove1 date_str (failed_dates p')\<rparr> else p')"

definition mark_failed :: "string \<Rightarrow> progress \<Rightarrow> progress" where
  "mark_failed date_str p =
     (if date_str \<notin> set (failed_dates p)
      then p\<lparr>failed_dates := failed_dates p @ [date_str]\<rparr> else p)"

definition record_result :: "date \<Rightarrow> bool \<Rightarrow> run_state \<Rightarrow> run_state" where
  \<comment> \<open>the block \<open>if success: ... else: ...\<close> that updates the progress dictionary\<close>
  "record_result target_date success st =
     (let date_str = strftime target_date
      in if success
         then st\<lparr>successful_dates := successful_dates st + 1,
                 rs_progress := mark_complete date_str (rs_progress st),
                 rs_trace := rs_trace st @ [MarkedComplete target_date]\<rparr>
         else st\<lparr>failed_count := failed_count st + 1,
                 rs_progress := mark_failed date_str (rs_progress st),
                 rs_trace := rs_trace st @ [MarkedFailed target_date]\<rparr>)"

definition run_date :: "world \<Rightarrow> run_state \<Rightarrow> nat \<times> date \<Rightarrow> run_state" where
  \<comment> \<open>one turn of \<open>for i, target_date in enumerate(all_dates, 1)\<close>\<close>
  "run_date w st it =
     (case it of (i, target_date) \<Rightarrow>
        (case collect_single_date w target_date 0 (rs_db st) of
           (success, db', ev) \<Rightarrow>
             let st1 = st\<lparr>rs_db := db', rs_trace := rs_trace st @ ev\<rparr>;
                 st2 = record_result target_date success st1
             in if i mod 10 = 0 then save_progress w st2 else st2))"

definition run_dates :: "world \<Rightarrow> date list \<Rightarrow> run_state \<Rightarrow> run_state" where
  "run_dates w all_dates st =
     save_progress w (foldl (run_date w) st (zip [1 ..< Suc (length all_dates)] all_dates))"

definition fresh_state :: "progress \<Rightarrow> checkpoint_file \<Rightarrow> table \<Rightarrow> run_state" where
  "fresh_state p file db =
     \<lparr>rs_db = db, rs_progress = p, rs_file = file, rs_trace = [],
      successful_dates = 0, failed_count = 0\<rparr>"

definition run_comprehensive_backfill ::
  "world \<Rightarrow> date \<Rightarrow> checkpoint_file \<Rightarrow> table \<Rightarrow> error + run_state" where
  \<comment> \<open>an unreadable progress file ends the run with the exception of \<open>json.load\<close>\<close>
  "run_comprehensive_backfill w today file db =
     (let c = init_collector today
      in case load_progress file of
           Inl e \<Rightarrow> Inl e
         | Inr progress \<Rightarrow>
             Inr (run_dates w
                    (remaining_dates (season_start c) (season_end c) (completed_dates progress))
                    (fresh_state progress file db)))"

section \<open>The validation pass (\<open>validate_complete_coverage.py\<close>)\<close>

text \<open>
  The validator reads the table and asks the upstream source again.  Its database is
  \<open>Inr\<close> of the table, or \<open>Inl\<close> of the exception every query raises when the
  database cannot be reached.  \<open>validate_sample_dates\<close> draws its day offsets with
  \<open>random.sample\<close>; the draw is the argument \<open>sample_days\<close>.  Of a validation the
  model keeps the subject (the date or the player's name), the status, the percentage and
  the two record counts; the distinct-game counters are informational and left out.
\<close>

record validator =
  v_season_start :: date
  v_season_end :: date

definition init_validator :: "date \<Rightarrow> validator" where
  "init_validator today =
     \<lparr>v_season_start = ymd2ord 2025 3 15, v_season_end = min (ymd2ord 2025 11 15) today\<rparr>"

record validation =
  v_subject :: string
  v_status :: vstatus
  v_completeness :: "rat option"
  v_expected_records :: "nat option"
  v_actual_records :: "nat option"
  v_issue :: "string option"

definition error_validation :: "string \<Rightarrow> validation" where
  "error_validation subject =
     \<lparr>v_subject = subject, v_status = VError, v_completeness = None,
      v_expected_records = None, v_actual_records = None, v_issue = None\<rparr>"

definition missing_text :: "nat \<Rightarrow> nat \<Rightarrow> string" where
  \<comment> \<open>\<open>f"Missing {expected_records - actual_records} records"\<close>\<close>
  "missing_text expected_records actual_records =
     ''Missing '' @ str_int (int expected_records - int actual_records) @ '' records''"

definition validate_sample_date ::
  "(string \<Rightarrow> string \<Rightarrow> fetch) \<Rightarrow> error + table \<Rightarrow> validator \<Rightarrow> nat \<Rightarrow> validation" where
  \<comment> \<open>one turn of the loop of \<open>validate_sample_dates\<close>\<close>
  "validate_sample_date statcast db v day_offset =
     (let target_date = v_season_start v + int day_offset;
          date_str = strftime target_date
      in case statcast date_str date_str of
           FetchFailed \<Rightarrow> error_validation date_str
         | Fetched expected_data \<Rightarrow>
             if expected_data = []
             then \<lparr>v_subject = date_str, v_status = NoGames, v_completeness = Some 100,
                   v_expected_records = None, v_actual_records = None, v_issue = None\<rparr>
             else (case db of
                     Inl e \<Rightarrow> error_validation date_str
                   | Inr tbl \<Rightarrow>
                       let expected_records = length expected_data;
                           actual_records = count_by_date tbl target_date;
                           completeness = completeness_pct actual_records expected_records
                       in \<lparr>v_subject = date_str,
                           v_status = status_of (995 / 10) completeness,
                           v_completeness = Some completeness,
                           v_expected_records = Some expected_records,
                           v_actual_records = Some actual_records,
                           v_issue = (if completeness < 995 / 10
                                      then Some (missing_text expected_records actual_records)
                                      else None)\<rparr>))"

definition validate_sample_dates ::
  "(string \<Rightarrow> string \<Rightarrow> fetch) \<Rightarrow> error + table \<Rightarrow> validator \<Rightarrow> nat list \<Rightarrow> validation list" where
  "validate_sample_dates statcast db v sample_days =
     map (validate_sample_date statcast db v) sample_days"

definition key_players :: "(int \<times> string) list" where
  "key_players =
     [(592450, ''Aaron Judge''), (545361, ''Mike Trout''),
      (666176, ''Ronald Acu'' @ [CHR 0xC3, CHR 0xB1] @ ''a Jr.''),
      (592518, ''Mookie Betts''), (608369, ''Vladimir Guerrero Jr.'')]"

definition validate_key_player ::
  "(string \<Rightarrow> string \<Rightarrow> fetch) \<Rightarrow> error + table \<Rightarrow> validator \<Rightarrow> int \<times> string \<Rightarrow> validation" where
  \<comment> \<open>one turn of the loop of \<open>validate_key_players\<close>\<close>
  "validate_key_player statcast db v player =
     (case player of (player_id, player_name) \<Rightarrow>
        (case statcast (strftime (v_season_start v)) (strftime (v_season_end v)) of
           FetchFailed \<Rightarrow> error_validation player_name
         | Fetched expected_data \<Rightarrow>
             let expected_records =
                   (if expected_data \<noteq> []
                    then length (filter (\<lambda>row. map_of row ''batter'' = Some (RInt player_id))
                                   expected_data)
                    else 0)
             in (case db of
                   Inl e \<Rightarrow> error_validation player_name
                 | Inr tbl \<Rightarrow>
                     let actual_records =
                           count_by_batter tbl player_id (v_season_start v) (v_season_end v);
                         completeness = completeness_pct actual_records expected_records
                     in \<lparr>v_subject = player_name,
                         v_status = status_of 95 completeness,
                         v_completeness = Some completeness,
                         v_expected_records = Some expected_records,
                         v_actual_records = Some actual_records,
                         v_issue = (if completeness < 95
                                    then Some (missing_text expected_records actual_records)
                                    else None)\<rparr>)))"

definition validate_key_players ::
  "(string \<Rightarrow> string \<Rightarrow> fetch) \<Rightarrow> error + table \<Rightarrow> validator \<Rightarrow> validation list" where
  "validate_key_players statcast db v = map (validate_key_player statcast db v) key_players"

definition validate_overall_coverage :: "error + table \<Rightarrow> validator \<Rightarrow> error + nat" where
  \<comment> \<open>the total of the season's rows; the query is not guarded, so its exception goes on\<close>
  "validate_overall_coverage db v =
     (case db of
        Inl e \<Rightarrow> Inl e
      | Inr tbl \<Rightarrow>
          Inr (length (filter (\<lambda>r. case game_date r of None \<Rightarrow> False
                                     | Some d \<Rightarrow> v_season_start v \<le> d \<and> d \<le> v_season_end v) tbl)))"

datatype report_status = COMPLETE | INCOMPLETE

record report =
  total_pitches :: nat
  daily_validation :: "validation list"
  player_validation :: "validation list"
  sample_completeness :: rat
  player_completeness :: rat
  overall_completeness :: rat
  validation_status :: report_status
  issues :: "string list"

definition share_complete :: "validation list \<Rightarrow> rat" where
  \<comment> \<open>\<open>(complete / len(vs) * 100) if vs else 0\<close>\<close>
  "share_complete vs =
     (if vs \<noteq> []
      then of_nat (length (filter (\<lambda>x. v_status x = Complete) vs)) / of_nat (length vs) * 100
      else 0)"

definition run_complete_validation ::
  "(string \<Rightarrow> string \<Rightarrow> fetch) \<Rightarrow> error + table \<Rightarrow> date \<Rightarrow> nat list \<Rightarrow> error + report" where
  "run_complete_validation statcast db today sample_days =
     (let v = init_validator today
      in case validate_overall_coverage db v of
           Inl e \<Rightarrow> Inl e
         | Inr overall_stats \<Rightarrow>
             let sample_validations = validate_sample_dates statcast db v sample_days;
                 sample_c = share_complete sample_validations;
                 player_validations = validate_key_players statcast db v;
                 player_c = share_complete player_validations;
                 overall_c = min sample_c player_c
             in Inr \<lparr>total_pitches = overall_stats,
                     daily_validation = sample_validations,
                     player_validation = player_validations,
                     sample_completeness = sample_c,
                     player_completeness = player_c,
                     overall_completeness = overall_c,
                     validation_status = (if overall_c \<ge> 95 then COMPLETE else INCOMPLETE),
                     issues =
                       map v_subject
                         (filter (\<lambda>x. v_status x \<noteq> Complete \<and> v_status x \<noteq> NoGames)
                            sample_validations)
                       @ map v_subject
                           (filter (\<lambda>x. v_status x \<noteq> Complete) player_validations)\<rparr>)"

definition main :: "(string \<Rightarrow> string \<Rightarrow> fetch) \<Rightarrow> error + table \<Rightarrow> date \<Rightarrow> nat list \<Rightarrow> error + bool" where
  \<comment> \<open>\<open>return report['summary']['validation_status'] == 'COMPLETE'\<close>\<close>
  "main statcast db today sample_days =
     (case run_complete_validation statcast db today sample_days of
        Inl e \<Rightarrow> Inl e
      | Inr r \<Rightarrow> Inr (validation_status r = COMPLETE))"

definition exit_status :: "error + bool \<Rightarrow> nat" where
  \<comment> \<open>the script prints one of two messages for \<open>success\<close> and ends; it never calls
      \<open>sys.exit\<close>, so the interpreter exits with 0 unless an exception escapes\<close>
  "exit_status result = (case result of Inl e \<Rightarrow> 1 | Inr success \<Rightarrow> 0)"

section \<open>Auxiliary notions for the proofs\<close>

text \<open>
  The table that the loop of \<open>store_statcast_data\<close> leaves is the result of upserting,
  in order, the rows that the table accepts; the log and the counters of the loop do not
  depend on the table.
\<close>

definition stored_rows ::
  "(string \<Rightarrow> date option) \<Rightarrow> (pitch_row \<Rightarrow> bool) \<Rightarrow> raw_row list \<Rightarrow> pitch_row list" where
  "stored_rows fromiso accepts df = filter accepts (map (\<lambda>row. fst (make_row fromiso row)) df)"

definition upsert_all :: "pitch_row list \<Rightarrow> table \<Rightarrow> table" where
  "upsert_all rows db = foldl (\<lambda>t r. upsert r t) db rows"

definition keys :: "table \<Rightarrow> string set" where
  "keys db = set (map pitch_id db)"

fun loop_log ::
  "(string \<Rightarrow> date option) \<Rightarrow> (pitch_row \<Rightarrow> bool) \<Rightarrow> nat \<Rightarrow> raw_row list \<Rightarrow> log_entry list" where
  "loop_log fromiso accepts n [] = []"
| "loop_log fromiso accepts n (row # df) =
     snd (make_row fromiso row)
       @ (if accepts (fst (make_row fromiso row)) then [] else [FailedToInsertRecord (n + 1)])
       @ loop_log fromiso accepts (n + 1) df"

fun is_attempt :: "event \<Rightarrow> bool" where
  "is_attempt (Attempt d k) = True"
| "is_attempt e = False"

definition attempts :: "event list \<Rightarrow> nat" where
  \<comment> \<open>how often \<open>collect_single_date\<close> was entered\<close>
  "attempts tr = length (filter is_attempt tr)"

text \<open>
  Notions for the history of a run: the events that \<open>collect_single_date\<close> emits, the
  dates whose entry in the progress dictionary was updated, a property of every event
  given the events before it, and what it means that a completed date of a progress
  dictionary is backed by the history.
\<close>

fun is_collect_event :: "event \<Rightarrow> bool" where
  "is_collect_event (Attempt d k) = True"
| "is_collect_event (Collected d) = True"
| "is_collect_event (Log e) = True"
| "is_collect_event e = False"

fun marked_of :: "event \<Rightarrow> date list" where
  "marked_of (MarkedComplete d) = [d]"
| "marked_of (MarkedFailed d) = [d]"
| "marked_of e = []"

definition marked :: "event list \<Rightarrow> date list" where
  "marked tr = concat (map marked_of tr)"

definition each_event :: "(event list \<Rightarrow> event \<Rightarrow> bool) \<Rightarrow> event list \<Rightarrow> bool" where
  "each_event Q tr = (\<forall>pre e post. tr = pre @ e # post \<longrightarrow> Q pre e)"

definition backed :: "string \<Rightarrow> event list \<Rightarrow> bool" where
  "backed s tr = (\<exists>d. s = strftime d \<and> Collected d \<in> set tr \<and> MarkedComplete d \<in> set tr)"

definition progress_backed :: "progress \<Rightarrow> progress \<Rightarrow> event list \<Rightarrow> bool" where
  "progress_backed p0 p tr =
     (\<forall>s \<in> set (completed_dates p). s \<in> set (completed_dates p0) \<or> backed s tr)"

definition after_collection :: "event list \<Rightarrow> event \<Rightarrow> bool" where
  "after_collection pre e = (\<forall>d. e = MarkedComplete d \<longrightarrow> (\<exists>pre'. pre = pre' @ [Collected d]))"

definition after_retries :: "event list \<Rightarrow> event \<Rightarrow> bool" where
  "after_retries pre e = (\<forall>d. e = MarkedFailed d \<longrightarrow> Attempt d max_retries \<in> set pre)"

definition disk_backed :: "progress \<Rightarrow> event list \<Rightarrow> event \<Rightarrow> bool" where
  "disk_backed p0 pre e = (\<forall>p. e = Disk (Json p) \<longrightarrow> progress_backed p0 p pre)"

definition run_inv :: "progress \<Rightarrow> run_state \<Rightarrow> bool" where
  "run_inv p0 st =
     (each_event after_collection (rs_trace st)
      \<and> each_event after_retries (rs_trace st)
      \<and> each_event (disk_backed p0) (rs_trace st)
      \<and> progress_backed p0 (rs_progress st) (rs_trace st))"

text \<open>
  The entries of the log that report a record that was not inserted, and the log entries
  among the events of a run.
\<close>

fun is_dropped :: "log_entry \<Rightarrow> bool" where
  "is_dropped (FailedToInsertRecord n) = True"
| "is_dropped e = False"

definition dropped_records :: "log_entry list \<Rightarrow> nat" where
  "dropped_records lg = length (filter is_dropped lg)"

fun logged :: "event \<Rightarrow> log_entry list" where
  "logged (Log e) = [e]"
| "logged e = []"

definition run_log :: "event list \<Rightarrow> log_entry list" where
  "run_log tr = concat (map logged tr)"

section \<open>Example data\<close>

text \<open>
  A few concrete rows, tables and upstream answers, on which the theorems below are
  instantiated.
\<close>


definition example_row :: "int \<Rightarrow> int \<Rightarrow> string \<Rightarrow> raw_row" where
  "example_row pitch batter day =
     [(''game_pk'', RInt 7), (''pitch_number'', RInt pitch), (''game_date'', RStr day),
      (''batter'', RInt batter)]"

definition example_table :: table where
  "example_table = st_table (store_loop (\<lambda>s. None) (\<lambda>r. True)
                      [example_row 1 592450 ''2025-03-16''] [])"

definition example_statcast :: "string \<Rightarrow> string \<Rightarrow> fetch" where
  "example_statcast start_dt end_dt =
     (if start_dt = end_dt
      then (if start_dt = ''2025-03-16''
            then Fetched [example_row 1 592450 ''2025-03-16'', example_row 2 592450 ''2025-03-16'']
            else Fetched [])
      else Fetched [example_row 1 592450 ''2025-03-16'', example_row 2 592450 ''2025-03-16'',
                    example_row 3 545361 ''2025-03-17''])"

definition example_fromiso :: "string \<Rightarrow> date option" where
  \<comment> \<open>an ISO parser that reads the date in front of the \<open>T\<close>\<close>
  "example_fromiso s = strptime_ymd (take 10 s)"

definition not_null_date :: "pitch_row \<Rightarrow> bool" where
  \<comment> \<open>a table whose column \<open>game_date\<close> is declared \<open>NOT NULL\<close>\<close>
  "not_null_date r = (game_date r \<noteq> None)"

definition example_batch :: "raw_row list" where
  "example_batch = [example_row 1 592450 ''2025-03-16'', example_row 2 592450 ''2025-03-16'']"

definition example_pitch_row :: "int \<Rightarrow> int \<Rightarrow> string \<Rightarrow> date \<Rightarrow> pitch_row" where
  "example_pitch_row pitch batter day d =
     \<lparr>game_pk = PInt 7, pitch_id = ''7_0_'' @ str_int pitch @ ''_0_0'', game_date = Some d,
      batter_id = PInt batter, pitcher_id = PNone,
      statcast_data = to_json (example_row pitch batter day),
      pitch_type = PNone, release_speed = PNone, events = PNone, launch_speed = PNone,
      launch_angle = PNone, hit_distance_sc = PNone\<rparr>"

definition example_stored :: table where
  "example_stored = [example_pitch_row 1 592450 ''2025-03-16'' 739326,
                     example_pitch_row 2 592450 ''2025-03-16'' 739326]"

definition collide_a :: raw_row where
  "collide_a = [(''game_pk'', RInt 7), (''game_date'', RStr ''2025-03-16''), (''batter'', RInt 1)]"

definition collide_b :: raw_row where
  "collide_b = [(''game_pk'', RInt 7), (''pitch_number'', RInt 0), (''inning'', RNaN),
                (''game_date'', RStr ''2025-03-16''), (''batter'', RInt 2)]"

definition example_progress :: progress where
  "example_progress =
     \<lparr>completed_dates = [''2025-03-15''], failed_dates = [''2025-03-16''],
      total_records_collected = 0, games_processed = 0, last_update = None\<rparr>"

definition failing_world :: world where
  \<comment> \<open>the upstream source is down\<close>
  "failing_world =
     \<lparr>w_fromiso = example_fromiso, w_accepts = not_null_date,
      w_statcast = (\<lambda>date_str retry_count ph. FetchFailed),
      w_commit_ok = (\<lambda>date_str retry_count. True),
      w_clock = (\<lambda>n. ''2025-03-17T12:00:00'')\<rparr>"

definition example_world :: world where
  \<comment> \<open>no games on 2025-03-15, two pitches on 2025-03-16, the source down for 2025-03-17\<close>
  "example_world =
     \<lparr>w_fromiso = example_fromiso, w_accepts = not_null_date,
      w_statcast = (\<lambda>date_str retry_count ph.
                      if date_str = ''2025-03-16'' then Fetched example_batch
                      else if date_str = ''2025-03-17'' then FetchFailed else Fetched []),
      w_commit_ok = (\<lambda>date_str retry_count. True),
      w_clock = (\<lambda>n. ''2025-03-17T12:00:00'')\<rparr>"

definition batch_world :: "raw_row list \<Rightarrow> world" where
  \<comment> \<open>the upstream source has the frame \<open>df\<close> for 2025-03-16 and nothing for other days\<close>
  "batch_world df =
     \<lparr>w_fromiso = example_fromiso, w_accepts = not_null_date,
      w_statcast = (\<lambda>date_str retry_count ph.
                      if date_str = ''2025-03-16'' then Fetched df else Fetched []),
      w_commit_ok = (\<lambda>date_str retry_count. True),
      w_clock = (\<lambda>n. ''2025-03-17T12:00:00'')\<rparr>"

definition batch_of_three :: "raw_row list" where
  "batch_of_three =
     [example_row 1 592450 ''2025-03-16'', example_row 2 592450 ''2025-03-1x'',
      example_row 3 592450 ''2025-03-16'']"

definition batch_of_ten :: "raw_row list" where
  \<comment> \<open>ten records of one day, the fourth with a date that does not parse\<close>
  "batch_of_ten =
     [example_row 1 592450 ''2025-03-16'', example_row 2 592450 ''2025-03-16'',
      example_row 3 592450 ''2025-03-16'', example_row 4 592450 ''not-a-date'',
      example_row 5 592450 ''2025-03-16'', example_row 6 592450 ''2025-03-16'',
      example_row 7 592450 ''2025-03-16'', example_row 8 592450 ''2025-03-16'',
      example_row 9 592450 ''2025-03-16'', example_row 10 592450 ''2025-03-16'']"

definition empty_progress :: progress where
  "empty_progress =
     \<lparr>completed_dates = [], failed_dates = [], total_records_collected = 0,
      games_processed = 0, last_update = None\<rparr>"

section \<open>Properties\<close>

subsection \<open>Evaluation of closed terms\<close>

lemmas text_defs = str_int_def zero_pad_def is_digit_def digit_val_def int_of_digits_def
  digits10.simps

lemmas calendar_defs = is_leap_def DAYS_IN_MONTH_def DAYS_BEFORE_MONTH_def
  days_before_year_def days_in_month_def days_before_month_def ymd2ord_def ord2ymd_def
  strftime_def month_token_def day_token_def strptime_ymd_def Let_def

lemmas store_defs = store_statcast_data_def store_loop_def store_record_def make_row_def
  to_json_def dict_get_def make_pitch_id_def or_zero_def upsert_def

lemmas example_defs = example_row_def example_fromiso_def not_null_date_def example_batch_def
  example_pitch_row_def example_stored_def collide_a_def collide_b_def
  example_progress_def failing_world_def example_world_def batch_world_def
  batch_of_three_def batch_of_ten_def empty_progress_def

lemmas run_defs = attempt_def collect_statcast_data_def validate_date_collection_def
  completeness_pct_def status_of_def run_date_def record_result_def mark_complete_def
  mark_failed_def save_progress_def open_for_writing_def json_dump_def run_dates_def
  run_comprehensive_backfill_def load_progress_def fresh_state_def max_retries_def
  count_by_date_def

lemma example_table_eval:
  "example_table =
     [\<lparr>game_pk = PInt 7, pitch_id = ''7_0_1_0_0'', game_date = Some 739326,
       batter_id = PInt 592450, pitcher_id = PNone,
       statcast_data = [(''game_pk'', PInt 7), (''pitch_number'', PInt 1),
                        (''game_date'', PStr ''2025-03-16''), (''batter'', PInt 592450)],
       pitch_type = PNone, release_speed = PNone, events = PNone, launch_speed = PNone,
       launch_angle = PNone, hit_distance_sc = PNone\<rparr>]"
  by (simp add: example_table_def example_row_def store_defs text_defs calendar_defs)

lemma validator_eval:
  "init_validator 739327 = \<lparr>v_season_start = 739325, v_season_end = 739327\<rparr>"
  by (simp add: init_validator_def calendar_defs)

lemma collector_eval:
  "init_collector 739327 = \<lparr>season_start = 739325, season_end = 739327\<rparr>"
  by (simp add: init_collector_def calendar_defs)

lemma strftime_eval:
  "strftime 739325 = ''2025-03-15''" "strftime 739326 = ''2025-03-16''"
  "strftime 739327 = ''2025-03-17''"
  by (simp_all add: text_defs calendar_defs)

subsection \<open>Completeness percentages\<close>

text \<open>
  Claim C1, as the code has it.  For a sampled date whose upstream frame is empty the
  reported percentage is 100; for a sampled date with records it is
  actual / expected * 100.  For a key player it is actual / expected * 100 when the
  upstream source has records of the player, and 0 (not 100) when it has none.  It is
  100 when actual and expected agree and are positive, and 0 when nothing is stored of a
  positive expectation.
\<close>

theorem completeness_of_subjects:
  assumes sample: "statcast (strftime (v_season_start v + int k))
                     (strftime (v_season_start v + int k)) = Fetched day_data"
      and season: "statcast (strftime (v_season_start v)) (strftime (v_season_end v))
                     = Fetched season_data"
      and expected: "expected = length (filter (\<lambda>row. map_of row ''batter'' = Some (RInt player_id))
                                  season_data)"
  shows "v_completeness (validate_sample_date statcast (Inr tbl) v k)
           = Some (if day_data = [] then 100
                   else of_nat (count_by_date tbl (v_season_start v + int k))
                          / of_nat (length day_data) * 100)
       \<and> v_completeness (validate_key_player statcast (Inr tbl) v (player_id, player_name))
           = Some (if expected = 0 then 0
                   else of_nat (count_by_batter tbl player_id (v_season_start v) (v_season_end v))
                          / of_nat expected * 100)
       \<and> (0 < e \<longrightarrow> completeness_pct e e = 100 \<and> completeness_pct 0 e = 0)"
proof (intro conjI)
  show "v_completeness (validate_sample_date statcast (Inr tbl) v k)
           = Some (if day_data = [] then 100
                   else of_nat (count_by_date tbl (v_season_start v + int k))
                          / of_nat (length day_data) * 100)"
    using sample by (simp add: validate_sample_date_def Let_def completeness_pct_def)
  show "v_completeness (validate_key_player statcast (Inr tbl) v (player_id, player_name))
           = Some (if expected = 0 then 0
                   else of_nat (count_by_batter tbl player_id (v_season_start v) (v_season_end v))
                          / of_nat expected * 100)"
    using season expected
    by (auto simp add: validate_key_player_def Let_def completeness_pct_def)
  show "0 < e \<longrightarrow> completeness_pct e e = 100 \<and> completeness_pct 0 e = 0"
    by (simp add: completeness_pct_def)
qed

theorem completeness_of_subjects_witness:
  "example_statcast (strftime (v_season_start (init_validator 739327) + int 1))
       (strftime (v_season_start (init_validator 739327) + int 1))
     = Fetched [example_row 1 592450 ''2025-03-16'', example_row 2 592450 ''2025-03-16'']
   \<and> v_completeness (validate_sample_date example_statcast (Inr example_table)
                        (init_validator 739327) 1) = Some 50
   \<and> v_completeness (validate_key_player example_statcast (Inr example_table)
                        (init_validator 739327) (592450, ''Aaron Judge'')) = Some 50
   \<and> completeness_pct 3 3 = 100 \<and> completeness_pct 0 3 = 0"
proof -
  have sample: "example_statcast (strftime (v_season_start (init_validator 739327) + int 1))
       (strftime (v_season_start (init_validator 739327) + int 1))
     = Fetched [example_row 1 592450 ''2025-03-16'', example_row 2 592450 ''2025-03-16'']"
    by (simp add: validator_eval strftime_eval example_statcast_def)
  have season: "example_statcast (strftime (v_season_start (init_validator 739327)))
       (strftime (v_season_end (init_validator 739327)))
     = Fetched [example_row 1 592450 ''2025-03-16'', example_row 2 592450 ''2025-03-16'',
                example_row 3 545361 ''2025-03-17'']"
    by (simp add: validator_eval strftime_eval example_statcast_def)
  have expected: "(2::nat) = length (filter (\<lambda>row. map_of row ''batter'' = Some (RInt 592450))
       [example_row 1 592450 ''2025-03-16'', example_row 2 592450 ''2025-03-16'',
        example_row 3 545361 ''2025-03-17''])"
    by (simp add: example_row_def)
  have counts: "count_by_date example_table 739326 = 1"
    "count_by_batter example_table 592450 739325 739327 = 1"
    by (simp_all add: example_table_eval count_by_date_def count_by_batter_def)
  show ?thesis
    using completeness_of_subjects [OF sample season expected, of example_table
        "''Aaron Judge''" 3] sample counts
    by (simp add: validator_eval)
qed

text \<open>
  Claim C1 as stated fails for a key player without upstream records: the expected count
  is 0 and the percentage is 0, with status \<open>missing\<close>.
\<close>

theorem completeness_zero_expected_counterexample:
  "v_expected_records (validate_key_player (\<lambda>start_dt end_dt. Fetched [])
       (Inr []) (init_validator 739327) (592450, ''Aaron Judge'')) = Some 0
   \<and> v_completeness (validate_key_player (\<lambda>start_dt end_dt. Fetched [])
       (Inr []) (init_validator 739327) (592450, ''Aaron Judge'')) = Some 0
   \<and> v_completeness (validate_key_player (\<lambda>start_dt end_dt. Fetched [])
       (Inr []) (init_validator 739327) (592450, ''Aaron Judge'')) \<noteq> Some 100
   \<and> v_status (validate_key_player (\<lambda>start_dt end_dt. Fetched [])
       (Inr []) (init_validator 739327) (592450, ''Aaron Judge'')) = Missing"
  by (simp add: validate_key_player_def completeness_pct_def status_of_def count_by_batter_def)

subsection \<open>The upsert\<close>

lemma st_table_foldl:
  "st_table (foldl (store_record fromiso accepts) st df)
     = upsert_all (stored_rows fromiso accepts df) (st_table st)"
proof (induction df arbitrary: st)
  case Nil
  show ?case by (simp add: upsert_all_def stored_rows_def)
next
  case (Cons row df)
  have step: "st_table (store_record fromiso accepts st row)
      = (if accepts (fst (make_row fromiso row))
         then upsert (fst (make_row fromiso row)) (st_table st) else st_table st)"
    by (simp add: store_record_def Let_def split: prod.splits)
  show ?case
    using Cons.IH [of "store_record fromiso accepts st row"]
    by (simp add: step upsert_all_def stored_rows_def)
qed

lemma store_loop_table:
  "st_table (store_loop fromiso accepts df db) = upsert_all (stored_rows fromiso accepts df) db"
  by (simp add: store_loop_def st_table_foldl)

lemma upsert_all_Cons: "upsert_all (r # rows) db = upsert_all rows (upsert r db)"
  by (simp add: upsert_all_def)

lemma upsert_all_Nil: "upsert_all [] db = db"
  by (simp add: upsert_all_def)

lemma upsert_pitch_ids:
  "map pitch_id (upsert r db)
     = (if pitch_id r \<in> keys db then map pitch_id db else map pitch_id db @ [pitch_id r])"
proof -
  have "map pitch_id (map (\<lambda>old. if pitch_id old = pitch_id r
                        then old\<lparr>statcast_data := statcast_data r\<rparr> else old) db)
          = map pitch_id db"
    by (induction db) auto
  then show ?thesis by (simp add: upsert_def keys_def)
qed

lemma upsert_game_dates:
  "map game_date (upsert r db)
     = (if pitch_id r \<in> keys db then map game_date db else map game_date db @ [game_date r])"
proof -
  have "map game_date (map (\<lambda>old. if pitch_id old = pitch_id r
                        then old\<lparr>statcast_data := statcast_data r\<rparr> else old) db)
          = map game_date db"
    by (induction db) auto
  then show ?thesis by (simp add: upsert_def keys_def)
qed

lemma keys_upsert: "keys (upsert r db) = insert (pitch_id r) (keys db)"
  unfolding keys_def upsert_pitch_ids by (auto simp: keys_def)

lemma keys_upsert_all: "keys (upsert_all rows db) = keys db \<union> pitch_id ` set rows"
  by (induction rows arbitrary: db) (auto simp: upsert_all_Nil upsert_all_Cons keys_upsert)

lemma upsert_all_present:
  "pitch_id ` set rows \<subseteq> keys db \<Longrightarrow>
     map pitch_id (upsert_all rows db) = map pitch_id db
     \<and> map game_date (upsert_all rows db) = map game_date db"
proof (induction rows arbitrary: db)
  case Nil
  show ?case by (simp add: upsert_all_Nil)
next
  case (Cons r rows)
  from Cons.prems have r: "pitch_id r \<in> keys db" and rest: "pitch_id ` set rows \<subseteq> keys db"
    by auto
  from rest have "pitch_id ` set rows \<subseteq> keys (upsert r db)" by (auto simp: keys_upsert)
  from Cons.IH [OF this] r show ?case
    by (simp add: upsert_all_Cons upsert_pitch_ids upsert_game_dates)
qed

lemma count_by_date_dates:
  "count_by_date db d = length (filter (\<lambda>g. g = Some d) (map game_date db))"
  by (simp add: count_by_date_def filter_map comp_def)

lemma upsert_distinct:
  "distinct (map pitch_id db) \<Longrightarrow> distinct (map pitch_id (upsert r db))"
  by (simp add: upsert_pitch_ids keys_def)

lemma upsert_all_distinct:
  "distinct (map pitch_id db) \<Longrightarrow> distinct (map pitch_id (upsert_all rows db))"
  by (induction rows arbitrary: db) (simp_all add: upsert_all_Nil upsert_all_Cons upsert_distinct)

lemma foldl_store_record_counters:
  "records_processed (foldl (store_record fromiso accepts) st df) = records_processed st + length df
   \<and> records_inserted (foldl (store_record fromiso accepts) st df)
       = records_inserted st + length (stored_rows fromiso accepts df)
   \<and> st_log (foldl (store_record fromiso accepts) st df)
       = st_log st @ loop_log fromiso accepts (records_processed st) df"
proof (induction df arbitrary: st)
  case Nil
  show ?case by (simp add: stored_rows_def)
next
  case (Cons row df)
  let ?s1 = "store_record fromiso accepts st row"
  have p: "records_processed ?s1 = records_processed st + 1"
    by (simp add: store_record_def Let_def split: prod.splits)
  have i: "records_inserted ?s1
      = records_inserted st + (if accepts (fst (make_row fromiso row)) then 1 else 0)"
    by (simp add: store_record_def Let_def split: prod.splits)
  have l: "st_log ?s1 = st_log st @ snd (make_row fromiso row)
      @ (if accepts (fst (make_row fromiso row)) then []
         else [FailedToInsertRecord (records_processed st + 1)])"
    by (simp add: store_record_def Let_def split: prod.splits)
  show ?case
    using Cons.IH [of ?s1] by (simp add: p i l stored_rows_def)
qed

lemma store_loop_log:
  "st_log (store_loop fromiso accepts df db) = loop_log fromiso accepts 0 df"
  "records_inserted (store_loop fromiso accepts df db) = length (stored_rows fromiso accepts df)"
  "records_processed (store_loop fromiso accepts df db) = length df"
  unfolding store_loop_def
  using foldl_store_record_counters [of fromiso accepts
      "\<lparr>st_table = db, records_processed = 0, records_inserted = 0, st_log = []\<rparr>" df]
  by simp_all

lemma stored_rows_keys_present:
  "pitch_id ` set (stored_rows fromiso accepts df)
     \<subseteq> keys (upsert_all (stored_rows fromiso accepts df) db)"
  by (simp add: keys_upsert_all)

lemma dict_get_to_json:
  "dict_get (to_json row) k = (case map_of row k of None \<Rightarrow> PNone | Some v \<Rightarrow> clean_value v)"
proof -
  have "map_of (map (\<lambda>(k, v). (k, clean_value v)) row) k = map_option clean_value (map_of row k)"
    by (simp add: map_of_map)
  then show ?thesis by (simp add: dict_get_def to_json_def split: option.splits)
qed

lemma make_row_fields:
  "pitch_id (fst (make_row fromiso row)) = make_pitch_id (to_json row)"
  "statcast_data (fst (make_row fromiso row)) = to_json row"
  by (simp_all add: make_row_def Let_def)

lemma count_key:
  assumes "distinct (map pitch_id t)" "k \<in> set (map pitch_id t)"
  shows "length (filter (\<lambda>r. pitch_id r = k) t) = 1"
proof -
  have "length (filter (\<lambda>r. pitch_id r = k) t) = length (filter (\<lambda>x. x = k) (map pitch_id t))"
    by (simp add: filter_map comp_def)
  also have "\<dots> = card ({x. x = k} \<inter> set (map pitch_id t))"
    using assms(1) by (rule distinct_length_filter)
  also have "{x. x = k} \<inter> set (map pitch_id t) = {k}" using assms(2) by auto
  finally show ?thesis by simp
qed

lemma upsert_payload:
  "\<forall>x \<in> set (upsert r db). pitch_id x = pitch_id r \<longrightarrow> statcast_data x = statcast_data r"
  by (auto simp: upsert_def image_iff)

lemma upsert_fresh_then_same:
  assumes "pitch_id r1 \<notin> keys db" "pitch_id r2 = pitch_id r1"
  shows "upsert r2 (upsert r1 db) = db @ [r1\<lparr>statcast_data := statcast_data r2\<rparr>]"
proof -
  have "map (\<lambda>old. if pitch_id old = pitch_id r1
                        then old\<lparr>statcast_data := statcast_data r2\<rparr> else old) db = db"
    using assms(1) by (induction db) (auto simp: keys_def)
  then show ?thesis using assms by (simp add: upsert_def keys_def)
qed

lemma natural_key_defaults:
  assumes "map_of row ''play_id'' = None" "map_of row ''pitch_number'' = None"
          "map_of row ''at_bat_number'' = None" "map_of row ''inning'' = None"
  shows "pitch_id (fst (make_row fromiso row))
           = format_value (dict_get (to_json row) ''game_pk'') @ ''_0_0_0_0''"
  using assms
  by (simp add: make_row_fields make_pitch_id_def Let_def dict_get_to_json or_zero_def str_int_def
      digits10.simps)

text \<open>
  Claim C3, as the code has it.  Storing the same frame a second time changes no count
  of any date, adds no row and leaves the sequence of natural keys as it is; a table with
  unique keys keeps them unique; the second pass logs what the first logged.  The natural
  key is a function of the raw record: the game identifier as it is given (it has no
  default), followed by the play identifier, the pitch number, the at-bat number and the
  inning, each 0 when absent.
\<close>

theorem reingest_idempotent:
  assumes first: "store_statcast_data fromiso accepts True df db = (Inr db1, log1)"
      and second: "store_statcast_data fromiso accepts True df db1 = (Inr db2, log2)"
  shows "(\<forall>d. count_by_date db2 d = count_by_date db1 d)
       \<and> length db2 = length db1
       \<and> map pitch_id db2 = map pitch_id db1
       \<and> (distinct (map pitch_id db) \<longrightarrow> distinct (map pitch_id db2))
       \<and> log2 = log1"
proof -
  let ?rows = "stored_rows fromiso accepts df"
  from first have db1: "db1 = upsert_all ?rows db" and log1: "log1 = loop_log fromiso accepts 0 df"
    by (simp_all add: store_statcast_data_def Let_def store_loop_table store_loop_log)
  from second have db2: "db2 = upsert_all ?rows db1" and log2: "log2 = loop_log fromiso accepts 0 df"
    by (simp_all add: store_statcast_data_def Let_def store_loop_table store_loop_log)
  have "pitch_id ` set ?rows \<subseteq> keys db1"
    unfolding db1 by (rule stored_rows_keys_present)
  from upsert_all_present [OF this]
  have ids: "map pitch_id db2 = map pitch_id db1" and dates: "map game_date db2 = map game_date db1"
    unfolding db2 by simp_all
  have "\<forall>d. count_by_date db2 d = count_by_date db1 d"
    by (simp add: count_by_date_dates dates)
  moreover have "length db2 = length db1"
    using ids by (metis length_map)
  moreover have "distinct (map pitch_id db) \<longrightarrow> distinct (map pitch_id db2)"
    unfolding ids unfolding db1 by (simp add: upsert_all_distinct)
  ultimately show ?thesis using ids log1 log2 by simp
qed

theorem reingest_idempotent_witness:
  "store_statcast_data example_fromiso not_null_date True example_batch []
     = (Inr example_stored, [])
   \<and> store_statcast_data example_fromiso not_null_date True example_batch example_stored
     = (Inr example_stored, [])
   \<and> count_by_date example_stored 739326 = 2 \<and> length example_stored = 2
   \<and> map pitch_id example_stored = [''7_0_1_0_0'', ''7_0_2_0_0'']"
proof -
  have first: "store_statcast_data example_fromiso not_null_date True example_batch []
     = (Inr example_stored, [])"
    by (simp add: example_defs store_defs text_defs calendar_defs)
  have second: "store_statcast_data example_fromiso not_null_date True example_batch
     example_stored = (Inr example_stored, [])"
    by (simp add: example_defs store_defs text_defs calendar_defs)
  have "count_by_date example_stored 739326 = 2"
    by (simp add: example_defs count_by_date_def)
  moreover have "map pitch_id example_stored = [''7_0_1_0_0'', ''7_0_2_0_0'']"
    by (simp add: example_defs text_defs)
  moreover have "length example_stored = 2"
    by (simp add: example_stored_def)
  ultimately show ?thesis
    using reingest_idempotent [OF first second] first second
    by simp
qed

text \<open>
  Claim C3 as stated lets every component of the key default to 0.  The game identifier
  does not: a record without it gets a key that starts with \<open>None\<close>.
\<close>

theorem game_id_has_no_default_counterexample:
  "pitch_id (fst (make_row example_fromiso [(''pitch_number'', RInt 1)])) = ''None_0_1_0_0''
   \<and> pitch_id (fst (make_row example_fromiso [(''pitch_number'', RInt 1)])) \<noteq> ''0_0_1_0_0''"
  by (simp add: store_defs text_defs)

text \<open>
  Claim C10.  Two records of one game whose play identifier, pitch number, at-bat number
  and inning agree after \<open>or 0\<close> (which sends an absent value and 0 to the same
  component) get the same natural key.  When the table accepts both, the loop counts two
  inserted records and logs no failed insert, yet the table holds one row with that key,
  whose payload is that of the later record; into a table without the key only the
  earlier record's row is appended.
\<close>

theorem colliding_records_share_row:
  assumes same_game: "dict_get (to_json r1) ''game_pk'' = dict_get (to_json r2) ''game_pk''"
      and same_rest: "\<forall>f \<in> set [''play_id'', ''pitch_number'', ''at_bat_number'', ''inning''].
                         or_zero (dict_get (to_json r1) f) = or_zero (dict_get (to_json r2) f)"
      and accepted: "accepts (fst (make_row fromiso r1))" "accepts (fst (make_row fromiso r2))"
      and unique: "distinct (map pitch_id db)"
      and st: "st = store_loop fromiso accepts [r1, r2] db"
      and k: "k = make_pitch_id (to_json r1)"
  shows "make_pitch_id (to_json r2) = k
       \<and> or_zero PNone = or_zero (PInt 0)
       \<and> records_inserted st = 2
       \<and> st_log st = snd (make_row fromiso r1) @ snd (make_row fromiso r2)
       \<and> length (filter (\<lambda>r. pitch_id r = k) (st_table st)) = 1
       \<and> (\<forall>r \<in> set (st_table st). pitch_id r = k \<longrightarrow> statcast_data r = to_json r2)
       \<and> length (st_table st) \<le> length db + 1
       \<and> (k \<notin> set (map pitch_id db) \<longrightarrow>
            st_table st = db @ [(fst (make_row fromiso r1))\<lparr>statcast_data := to_json r2\<rparr>])"
proof -
  let ?a = "fst (make_row fromiso r1)" and ?b = "fst (make_row fromiso r2)"
  have key2: "make_pitch_id (to_json r2) = k"
    using same_game same_rest unfolding k by (simp add: make_pitch_id_def Let_def)
  have ka: "pitch_id ?a = k" and kb: "pitch_id ?b = k"
    using key2 k by (simp_all add: make_row_fields)
  have rows: "stored_rows fromiso accepts [r1, r2] = [?a, ?b]"
    using accepted by (simp add: stored_rows_def)
  have tbl: "st_table st = upsert ?b (upsert ?a db)"
    unfolding st by (simp add: store_loop_table rows upsert_all_def)
  have ids: "map pitch_id (st_table st)
      = (if k \<in> keys db then map pitch_id db else map pitch_id db @ [k])"
    unfolding tbl by (simp add: upsert_pitch_ids keys_upsert ka kb)
  have "records_inserted st = 2"
    unfolding st by (simp add: store_loop_log rows)
  moreover have "st_log st = snd (make_row fromiso r1) @ snd (make_row fromiso r2)"
    unfolding st using accepted by (simp add: store_loop_log)
  moreover have "length (filter (\<lambda>r. pitch_id r = k) (st_table st)) = 1"
  proof (rule count_key)
    show "distinct (map pitch_id (st_table st))"
      unfolding ids using unique by (simp add: keys_def)
    show "k \<in> set (map pitch_id (st_table st))"
      unfolding ids by (simp add: keys_def)
  qed
  moreover have "\<forall>r \<in> set (st_table st). pitch_id r = k \<longrightarrow> statcast_data r = to_json r2"
    using upsert_payload [of ?b "upsert ?a db"] key2 unfolding tbl by (simp add: make_row_fields)
  moreover have "length (st_table st) \<le> length db + 1"
  proof -
    have "length (st_table st) = length (map pitch_id (st_table st))" by simp
    also have "\<dots> \<le> length db + 1" unfolding ids by simp
    finally show ?thesis .
  qed
  moreover have "k \<notin> set (map pitch_id db) \<longrightarrow>
            st_table st = db @ [?a\<lparr>statcast_data := to_json r2\<rparr>]"
    unfolding tbl using upsert_fresh_then_same [of ?a db ?b] key2 k
    by (simp add: keys_def make_row_fields)
  ultimately show ?thesis using key2 by (simp add: or_zero_def)
qed

theorem colliding_records_share_row_witness:
  "dict_get (to_json collide_a) ''game_pk'' = dict_get (to_json collide_b) ''game_pk''
   \<and> not_null_date (fst (make_row example_fromiso collide_a))
   \<and> not_null_date (fst (make_row example_fromiso collide_b))
   \<and> collide_a \<noteq> collide_b
   \<and> make_pitch_id (to_json collide_a) = ''7_0_0_0_0''
   \<and> make_pitch_id (to_json collide_b) = ''7_0_0_0_0''
   \<and> length (st_table (store_loop example_fromiso not_null_date [collide_a, collide_b] [])) = 1
   \<and> map batter_id (st_table (store_loop example_fromiso not_null_date [collide_a, collide_b] []))
       = [PInt 1]
   \<and> map statcast_data (st_table (store_loop example_fromiso not_null_date [collide_a, collide_b] []))
       = [to_json collide_b]"
proof -
  have same_game: "dict_get (to_json collide_a) ''game_pk'' = dict_get (to_json collide_b) ''game_pk''"
    by (simp add: example_defs to_json_def dict_get_def)
  have same_rest: "\<forall>f \<in> set [''play_id'', ''pitch_number'', ''at_bat_number'', ''inning''].
      or_zero (dict_get (to_json collide_a) f) = or_zero (dict_get (to_json collide_b) f)"
    by (simp add: example_defs to_json_def dict_get_def or_zero_def)
  have accepted: "not_null_date (fst (make_row example_fromiso collide_a))"
    "not_null_date (fst (make_row example_fromiso collide_b))"
    by (simp_all add: example_defs store_defs text_defs calendar_defs)
  have key: "make_pitch_id (to_json collide_a) = ''7_0_0_0_0''"
    by (simp add: example_defs store_defs text_defs)
  have differ: "collide_a \<noteq> collide_b"
    by (simp add: example_defs)
  have "make_pitch_id (to_json collide_b) = ''7_0_0_0_0''
      \<and> st_table (store_loop example_fromiso not_null_date [collide_a, collide_b] [])
          = [(fst (make_row example_fromiso collide_a))\<lparr>statcast_data := to_json collide_b\<rparr>]"
    using colliding_records_share_row [OF same_game same_rest accepted _ refl refl, of "[]"] key
    by simp
  moreover have "batter_id (fst (make_row example_fromiso collide_a)) = PInt 1"
    by (simp add: make_row_def Let_def dict_get_def example_defs to_json_def)
  ultimately show ?thesis
    using same_game accepted key differ by simp
qed

subsection \<open>The dates of a resumed run\<close>

lemma remaining_dates_set:
  "set (remaining_dates c e completed) = {d. c \<le> d \<and> d \<le> e \<and> strftime d \<notin> set completed}"
proof (induction c e completed rule: remaining_dates.induct)
  case (1 c e completed)
  show ?case
  proof (cases "c \<le> e")
    case True
    have split: "{d. c \<le> d \<and> d \<le> e \<and> strftime d \<notin> set completed}
        = (if strftime c \<notin> set completed then {c} else {})
          \<union> {d. c + 1 \<le> d \<and> d \<le> e \<and> strftime d \<notin> set completed}"
      using True by (auto simp: order_le_less)
    show ?thesis
      using True "1.IH" by (subst remaining_dates.simps) (simp add: split)
  next
    case False
    then show ?thesis by (subst remaining_dates.simps) auto
  qed
qed

lemma remaining_dates_ascending:
  "sorted_wrt (<) (remaining_dates c e completed)"
proof (induction c e completed rule: remaining_dates.induct)
  case (1 c e completed)
  show ?case
  proof (cases "c \<le> e")
    case True
    have later: "\<forall>d \<in> set (remaining_dates (c + 1) e completed). c < d"
      by (auto simp: remaining_dates_set)
    show ?thesis
      using True "1.IH" later by (subst remaining_dates.simps) simp
  next
    case False
    then show ?thesis by (subst remaining_dates.simps) simp
  qed
qed

lemma remaining_dates_distinct: "distinct (remaining_dates c e completed)"
  using remaining_dates_ascending [of c e completed] by (simp add: strict_sorted_iff)

text \<open>
  Claim C2.  The season ends at the earlier of 2025-11-15 and today.  The list of dates
  that a run processes is strictly ascending and holds exactly the dates of the season
  whose text is not among the completed dates of the checkpoint: a completed date D1 is
  left out, a failed date D2 and a date D3 that was never attempted are both in it, and
  when D1, D2 and D3 are the whole season so far the list holds D2 and D3 and nothing
  else.
\<close>

theorem resume_date_range:
  assumes c: "c = init_collector today"
      and out: "out = remaining_dates (season_start c) (season_end c) (completed_dates p)"
      and in_season: "{D1, D2, D3} \<subseteq> {season_start c .. season_end c}"
      and D1: "strftime D1 \<in> set (completed_dates p)"
      and D2: "strftime D2 \<in> set (failed_dates p)" "strftime D2 \<notin> set (completed_dates p)"
      and D3: "strftime D3 \<notin> set (completed_dates p)" "strftime D3 \<notin> set (failed_dates p)"
  shows "sorted_wrt (<) out
       \<and> set out = {d. season_start c \<le> d \<and> d \<le> season_end c
                        \<and> strftime d \<notin> set (completed_dates p)}
       \<and> D1 \<notin> set out \<and> D2 \<in> set out \<and> D3 \<in> set out
       \<and> season_end c = min (ymd2ord 2025 11 15) today
       \<and> ({season_start c .. season_end c} = {D1, D2, D3} \<longrightarrow> set out = {D2, D3})"
proof -
  have s: "set out = {d. season_start c \<le> d \<and> d \<le> season_end c
                        \<and> strftime d \<notin> set (completed_dates p)}"
    unfolding out by (rule remaining_dates_set)
  have "sorted_wrt (<) out" unfolding out by (rule remaining_dates_ascending)
  moreover have "D1 \<notin> set out" using D1 by (simp add: s)
  moreover have "D2 \<in> set out" "D3 \<in> set out" using in_season D2 D3 by (simp_all add: s)
  moreover have "season_end c = min (ymd2ord 2025 11 15) today"
    unfolding c by (simp add: init_collector_def Let_def min_def)
  moreover have "{season_start c .. season_end c} = {D1, D2, D3} \<longrightarrow> set out = {D2, D3}"
  proof
    assume r: "{season_start c .. season_end c} = {D1, D2, D3}"
    have "set out = {d \<in> {season_start c .. season_end c}. strftime d \<notin> set (completed_dates p)}"
      by (auto simp: s)
    also have "\<dots> = {D2, D3}" unfolding r using D1 D2 D3 by auto
    finally show "set out = {D2, D3}" .
  qed
  ultimately show ?thesis using s by blast
qed

theorem resume_date_range_witness:
  "{739325, 739326, 739327}
     \<subseteq> {season_start (init_collector 739327) .. season_end (init_collector 739327)}
   \<and> strftime 739325 \<in> set (completed_dates example_progress)
   \<and> strftime 739326 \<in> set (failed_dates example_progress)
   \<and> strftime 739326 \<notin> set (completed_dates example_progress)
   \<and> strftime 739327 \<notin> set (completed_dates example_progress)
   \<and> strftime 739327 \<notin> set (failed_dates example_progress)
   \<and> remaining_dates (season_start (init_collector 739327)) (season_end (init_collector 739327))
        (completed_dates example_progress) = [739326, 739327]"
proof -
  have in_season: "{739325, 739326, 739327}
     \<subseteq> {season_start (init_collector 739327) .. season_end (init_collector 739327)}"
    by (simp add: collector_eval)
  have D1: "strftime 739325 \<in> set (completed_dates example_progress)"
    and D2: "strftime 739326 \<in> set (failed_dates example_progress)"
            "strftime 739326 \<notin> set (completed_dates example_progress)"
    and D3: "strftime 739327 \<notin> set (completed_dates example_progress)"
            "strftime 739327 \<notin> set (failed_dates example_progress)"
    by (simp_all add: strftime_eval example_progress_def)
  have whole: "{season_start (init_collector 739327) .. season_end (init_collector 739327)}
      = {739325, 739326, 739327}"
    by (auto simp: collector_eval)
  let ?out = "remaining_dates (season_start (init_collector 739327))
                (season_end (init_collector 739327)) (completed_dates example_progress)"
  note range = resume_date_range [OF refl refl in_season D1 D2 D3]
  from range have "sorted_wrt (<) ?out"
    by (rule conjunct1)
  moreover from range whole have "set ?out = {739326, 739327}"
    by blast
  ultimately have "?out = [739326, 739327]"
    by (intro strict_sorted_equal) simp_all
  with in_season D1 D2 D3 show ?thesis by simp
qed

subsection \<open>Retries of one date\<close>

lemma digits10_chars: "set (digits10 n) \<subseteq> set ''0123456789''"
proof (induction n rule: digits10.induct)
  case (1 n)
  have nth: "\<And>k. k < 10 \<Longrightarrow> ''0123456789'' ! k \<in> set ''0123456789''"
    using nth_mem [of _ "''0123456789''"] by simp
  show ?case
  proof (cases "n < 10")
    case True
    with nth [of n] show ?thesis by (subst digits10.simps) simp
  next
    case False
    have "n mod 10 < 10" by simp
    from nth [OF this] False "1.IH" show ?thesis by (subst digits10.simps) simp
  qed
qed

lemma str_int_no_T: "CHR ''T'' \<notin> set (str_int i)"
  using digits10_chars [of "nat i"] digits10_chars [of "nat (- i)"]
  by (auto simp: str_int_def)

lemma strftime_no_T: "CHR ''T'' \<notin> set (strftime d)"
  by (simp add: strftime_def zero_pad_def str_int_no_T split: prod.splits)

lemma convert_date_text:
  "strptime_ymd (strftime d) = Some d \<Longrightarrow>
     convert_to_date fromiso (PStr (strftime d)) = (Some d, [])"
  by (simp add: strftime_no_T)

lemma attempt_fetch_failed:
  assumes "strptime_ymd (strftime d) = Some d"
      and "w_statcast w (strftime d) k Collecting = FetchFailed"
  shows "attempt w d k db = (Raised, db, [Attempt d k, Log ErrorCollectingStatcastData])"
  using assms
  by (simp add: attempt_def collect_statcast_data_def Let_def strftime_no_T)

lemma attempt_attempts: "attempts (snd (snd (attempt w d k db))) = 1"
  by (auto simp: attempt_def attempts_def Let_def comp_def split: prod.splits sum.splits)

lemma collect_single_date_attempts:
  "attempts (snd (snd (collect_single_date w d k db))) \<le> Suc (max_retries - k)"
proof (induction w d k db rule: collect_single_date.induct)
  case (1 w d k db)
  obtain oc db' ev where a: "attempt w d k db = (oc, db', ev)"
    by (cases "attempt w d k db") auto
  with attempt_attempts [of w d k db] have one: "attempts ev = 1" by simp
  show ?case
  proof (cases "oc = Succeeded \<or> \<not> k < max_retries")
    case True
    with a one show ?thesis
      by (cases oc) (auto simp: collect_single_date.simps [of w d k db])
  next
    case False
    then have k: "k < max_retries" and oc: "oc = NotComplete \<or> oc = Raised" 
      by (auto intro: outcome.exhaust [of oc])
    from oc have IH: "attempts (snd (snd (collect_single_date w d (k + 1) db')))
        \<le> Suc (max_retries - (k + 1))"
      using "1.IH" a k by auto
    obtain b db'' ev' where r: "collect_single_date w d (k + 1) db' = (b, db'', ev')"
      by (cases "collect_single_date w d (k + 1) db'") auto
    from oc have "snd (snd (collect_single_date w d k db)) = ev @ ev'"
      using a k r by (auto simp: collect_single_date.simps [of w d k db])
    with IH r one k show ?thesis by (simp add: attempts_def)
  qed
qed

lemma collect_single_date_retry_failed:
  assumes rt: "strptime_ymd (strftime d) = Some d"
      and fails: "w_statcast w (strftime d) k Collecting = FetchFailed"
      and k: "k < max_retries" "k' = k + 1"
      and rest: "collect_single_date w d k' db = (b, db', tr)"
  shows "collect_single_date w d k db
           = (b, db', Attempt d k # Log ErrorCollectingStatcastData # tr)"
  using k rest attempt_fetch_failed [OF rt fails, of db]
  by (simp add: collect_single_date.simps [of w d k db])

lemma collect_single_date_always_failing:
  assumes rt: "strptime_ymd (strftime d) = Some d"
      and fails: "\<forall>k. w_statcast w (strftime d) k Collecting = FetchFailed"
  shows "collect_single_date w d 0 db
     = (False, db, [Attempt d 0, Log ErrorCollectingStatcastData,
                    Attempt d 1, Log ErrorCollectingStatcastData,
                    Attempt d 2, Log ErrorCollectingStatcastData,
                    Attempt d 3, Log ErrorCollectingStatcastData])"
proof -
  have f: "\<And>k. w_statcast w (strftime d) k Collecting = FetchFailed"
    using fails by simp
  have c3: "collect_single_date w d 3 db
      = (False, db, [Attempt d 3, Log ErrorCollectingStatcastData])"
    using attempt_fetch_failed [OF rt f, of 3 db]
    by (simp add: collect_single_date.simps [of w d 3 db] max_retries_def)
  have c2: "collect_single_date w d 2 db
      = (False, db, [Attempt d 2, Log ErrorCollectingStatcastData,
                     Attempt d 3, Log ErrorCollectingStatcastData])"
    by (rule collect_single_date_retry_failed [OF rt f _ _ c3]) (simp_all add: max_retries_def)
  have c1: "collect_single_date w d 1 db
      = (False, db, [Attempt d 1, Log ErrorCollectingStatcastData,
                     Attempt d 2, Log ErrorCollectingStatcastData,
                     Attempt d 3, Log ErrorCollectingStatcastData])"
    by (rule collect_single_date_retry_failed [OF rt f _ _ c2]) (simp_all add: max_retries_def)
  show ?thesis
    by (rule collect_single_date_retry_failed [OF rt f _ _ c1]) (simp_all add: max_retries_def)
qed

lemma save_progress_fields:
  "completed_dates (rs_progress (save_progress w st)) = completed_dates (rs_progress st)"
  "failed_dates (rs_progress (save_progress w st)) = failed_dates (rs_progress st)"
  "failed_count (save_progress w st) = failed_count st"
  "successful_dates (save_progress w st) = successful_dates st"
  "rs_db (save_progress w st) = rs_db st"
  "rs_trace (save_progress w st)
     = rs_trace st @ [Disk Torn, Disk (Json (rs_progress (save_progress w st)))]"
  "rs_file (save_progress w st) = Json (rs_progress (save_progress w st))"
  by (simp_all add: save_progress_def json_dump_def open_for_writing_def Let_def)

lemma record_result_fields:
  "rs_db (record_result d success st) = rs_db st"
  "rs_file (record_result d success st) = rs_file st"
  "rs_trace (record_result d success st)
     = rs_trace st @ [if success then MarkedComplete d else MarkedFailed d]"
  "rs_progress (record_result d success st)
     = (if success then mark_complete (strftime d) (rs_progress st)
        else mark_failed (strftime d) (rs_progress st))"
  "failed_count (record_result d success st) = failed_count st + (if success then 0 else 1)"
  "successful_dates (record_result d success st)
     = successful_dates st + (if success then 1 else 0)"
  by (simp_all add: record_result_def Let_def)

lemma run_date_unfold:
  assumes "collect_single_date w d 0 (rs_db st) = (success, db', ev)"
  shows "run_date w st (i, d)
     = (let st2 = record_result d success (st\<lparr>rs_db := db', rs_trace := rs_trace st @ ev\<rparr>)
        in if i mod 10 = 0 then save_progress w st2 else st2)"
  using assms by (simp add: run_date_def)

text \<open>
  Claim C4.  When the upstream source fails at every attempt for a date (whose text
  parses back to the date, as every date's does), \<open>collect_single_date\<close> makes the first
  attempt and exactly \<open>max_retries = 3\<close> more, returns \<open>False\<close> and leaves the table alone;
  the run then records the date as failed and not as completed.  For every world, date,
  retry count and table the recursion ends, after at most \<open>max_retries + 1\<close> attempts
  when it starts from 0: the function is total, with the distance of the retry count
  from \<open>max_retries\<close> as its measure.
\<close>

theorem retry_bound:
  assumes rt: "strptime_ymd (strftime d) = Some d"
      and fails: "\<forall>k. w_statcast w (strftime d) k Collecting = FetchFailed"
      and st': "st' = run_date w st (i, d)"
  shows "collect_single_date w d 0 db
           = (False, db, [Attempt d 0, Log ErrorCollectingStatcastData,
                          Attempt d 1, Log ErrorCollectingStatcastData,
                          Attempt d 2, Log ErrorCollectingStatcastData,
                          Attempt d 3, Log ErrorCollectingStatcastData])
       \<and> attempts (snd (snd (collect_single_date w d 0 db))) = 1 + max_retries
       \<and> strftime d \<in> set (failed_dates (rs_progress st'))
       \<and> completed_dates (rs_progress st') = completed_dates (rs_progress st)
       \<and> failed_count st' = failed_count st + 1
       \<and> MarkedFailed d \<in> set (rs_trace st')
       \<and> (\<forall>w' d' k db'. attempts (snd (snd (collect_single_date w' d' k db')))
                            \<le> Suc (max_retries - k))"
proof -
  note c = collect_single_date_always_failing [OF rt fails]
  note u = run_date_unfold [OF c [of "rs_db st"], of i]
  have "strftime d \<in> set (failed_dates (rs_progress st'))"
    unfolding st' u by (simp add: Let_def save_progress_fields record_result_fields mark_failed_def)
  moreover have "completed_dates (rs_progress st') = completed_dates (rs_progress st)"
    unfolding st' u by (simp add: Let_def save_progress_fields record_result_fields mark_failed_def)
  moreover have "failed_count st' = failed_count st + 1"
    unfolding st' u by (simp add: Let_def save_progress_fields record_result_fields)
  moreover have "MarkedFailed d \<in> set (rs_trace st')"
    unfolding st' u by (simp add: Let_def save_progress_fields record_result_fields)
  moreover have "attempts (snd (snd (collect_single_date w d 0 db))) = 1 + max_retries"
    unfolding c [of db] by (simp add: attempts_def max_retries_def)
  ultimately show ?thesis
    using c [of db] collect_single_date_attempts by blast
qed

theorem retry_bound_witness:
  "strptime_ymd (strftime 739325) = Some 739325
   \<and> w_statcast failing_world (strftime 739325) 2 Collecting = FetchFailed
   \<and> collect_single_date failing_world 739325 0 example_stored
       = (False, example_stored,
          [Attempt 739325 0, Log ErrorCollectingStatcastData,
           Attempt 739325 1, Log ErrorCollectingStatcastData,
           Attempt 739325 2, Log ErrorCollectingStatcastData,
           Attempt 739325 3, Log ErrorCollectingStatcastData])
   \<and> failed_dates (rs_progress (run_date failing_world (fresh_state example_progress NoFile []) (1, 739325)))
       = [''2025-03-16'', ''2025-03-15'']"
proof -
  have rt: "strptime_ymd (strftime 739325) = Some 739325"
    by (simp add: text_defs calendar_defs)
  have fails: "\<forall>k. w_statcast failing_world (strftime 739325) k Collecting = FetchFailed"
    by (simp add: failing_world_def)
  note r = retry_bound [OF rt fails refl, where db = example_stored and i = 1
      and st = "fresh_state example_progress NoFile []"]
  from r have "collect_single_date failing_world 739325 0 example_stored
       = (False, example_stored,
          [Attempt 739325 0, Log ErrorCollectingStatcastData,
           Attempt 739325 1, Log ErrorCollectingStatcastData,
           Attempt 739325 2, Log ErrorCollectingStatcastData,
           Attempt 739325 3, Log ErrorCollectingStatcastData])"
    by (rule conjunct1)
  moreover have "failed_dates (rs_progress (run_date failing_world
      (fresh_state example_progress NoFile []) (1, 739325))) = [''2025-03-16'', ''2025-03-15'']"
    using run_date_unfold [OF collect_single_date_always_failing [OF rt fails], of
        "fresh_state example_progress NoFile []" 1]
    by (simp add: Let_def record_result_fields mark_failed_def fresh_state_def
        example_progress_def strftime_eval)
  ultimately show ?thesis using rt fails by simp
qed

subsection \<open>The history of a run\<close>

lemma each_event_Nil: "each_event Q []"
  by (simp add: each_event_def)

lemma each_event_Cons:
  "each_event Q (e # es) = (Q [] e \<and> each_event (\<lambda>pre. Q (e # pre)) es)"
proof
  assume a: "each_event Q (e # es)"
  have "Q [] e" using a unfolding each_event_def by (metis append_Nil)
  moreover have "each_event (\<lambda>pre. Q (e # pre)) es"
    unfolding each_event_def
  proof (intro allI impI)
    fix pre x post
    assume "es = pre @ x # post"
    then have "e # es = (e # pre) @ x # post" by simp
    with a show "Q (e # pre) x" unfolding each_event_def by blast
  qed
  ultimately show "Q [] e \<and> each_event (\<lambda>pre. Q (e # pre)) es" ..
next
  assume a: "Q [] e \<and> each_event (\<lambda>pre. Q (e # pre)) es"
  show "each_event Q (e # es)"
    unfolding each_event_def
  proof (intro allI impI)
    fix pre x post
    assume eq: "e # es = pre @ x # post"
    show "Q pre x"
    proof (cases pre)
      case Nil
      with eq a show ?thesis by simp
    next
      case (Cons y pre')
      with eq have "y = e" "es = pre' @ x # post" by simp_all
      with a Cons show ?thesis unfolding each_event_def by blast
    qed
  qed
qed

lemma each_event_append:
  "each_event Q (xs @ ys) = (each_event Q xs \<and> each_event (\<lambda>pre. Q (xs @ pre)) ys)"
proof (induction xs arbitrary: Q)
  case Nil
  show ?case by (simp add: each_event_Nil)
next
  case (Cons x xs)
  show ?case by (simp add: each_event_Cons Cons.IH)
qed

lemma each_event_trivial:
  "(\<And>pre e. e \<in> set tr \<Longrightarrow> Q pre e) \<Longrightarrow> each_event Q tr"
  unfolding each_event_def by (metis in_set_conv_decomp)

lemma each_event_mono:
  "each_event Q tr \<Longrightarrow> (\<And>pre e. Q pre e \<Longrightarrow> Q' pre e) \<Longrightarrow> each_event Q' tr"
  unfolding each_event_def by blast

lemma attempt_events:
  assumes "attempt w d k db = (oc, db', ev)"
  shows "(\<forall>e \<in> set ev. is_collect_event e)
       \<and> Attempt d k \<in> set ev
       \<and> (oc = Succeeded \<longrightarrow> (\<exists>ev'. ev = ev' @ [Collected d]))"
proof -
  obtain res lg where c: "collect_statcast_data (w_fromiso w) (w_accepts w)
                (\<lambda>s. w_statcast w s k Collecting)
                (w_commit_ok w (strftime d) k) (strftime d) db = (res, lg)"
    by (cases "collect_statcast_data (w_fromiso w) (w_accepts w)
                (\<lambda>s. w_statcast w s k Collecting)
                (w_commit_ok w (strftime d) k) (strftime d) db") auto
  show ?thesis
  proof (cases res)
    case (Inl e)
    with assms c show ?thesis by (auto simp: attempt_def Let_def)
  next
    case (Inr t)
    with assms c have "ev = Attempt d k # map Log lg @ [Collected d]"
      by (auto simp: attempt_def Let_def split: if_splits)
    then show ?thesis by auto
  qed
qed

lemma collect_single_date_events:
  assumes "collect_single_date w d k db = (b, db', ev)"
  shows "(\<forall>e \<in> set ev. is_collect_event e)
       \<and> (b \<longrightarrow> (\<exists>ev'. ev = ev' @ [Collected d]))
       \<and> (\<not> b \<and> k \<le> max_retries \<longrightarrow> Attempt d max_retries \<in> set ev)"
  using assms
proof (induction w d k db arbitrary: b db' ev rule: collect_single_date.induct)
  case (1 w d k db)
  obtain oc db1 ev1 where a: "attempt w d k db = (oc, db1, ev1)"
    by (cases "attempt w d k db") auto
  note ae = attempt_events [OF a]
  show ?case
  proof (cases "oc = Succeeded")
    case True
    with a "1.prems" have "b" "ev = ev1"
      by (simp_all add: collect_single_date.simps [of w d k db])
    with ae True show ?thesis by simp
  next
    case notS: False
    show ?thesis
    proof (cases "k < max_retries")
      case False
      with a "1.prems" notS have "\<not> b" "ev = ev1"
        by (cases oc; simp add: collect_single_date.simps [of w d k db])+
      moreover from False have "k \<le> max_retries \<longrightarrow> k = max_retries" by simp
      ultimately show ?thesis using ae by auto
    next
      case True
      obtain b2 db2 ev2 where r: "collect_single_date w d (k + 1) db1 = (b2, db2, ev2)"
        by (cases "collect_single_date w d (k + 1) db1") auto
      from notS have oc: "oc = NotComplete \<or> oc = Raised" by (cases oc) auto
      from oc a True r "1.prems" have res: "b = b2" "ev = ev1 @ ev2"
        by (auto simp: collect_single_date.simps [of w d k db])
      have IH: "(\<forall>e \<in> set ev2. is_collect_event e)
         \<and> (b2 \<longrightarrow> (\<exists>ev'. ev2 = ev' @ [Collected d]))
         \<and> (\<not> b2 \<and> k + 1 \<le> max_retries \<longrightarrow> Attempt d max_retries \<in> set ev2)"
      proof -
        from oc show ?thesis
        proof
          assume "oc = NotComplete"
          from "1.IH"(1) [OF a [symmetric] this refl True r] show ?thesis .
        next
          assume "oc = Raised"
          from "1.IH"(2) [OF a [symmetric] this refl True r] show ?thesis .
        qed
      qed
      have "\<forall>e \<in> set ev. is_collect_event e" using res ae IH by auto
      moreover have "b \<longrightarrow> (\<exists>ev'. ev = ev' @ [Collected d])"
      proof
        assume b
        with res IH obtain ev' where "ev2 = ev' @ [Collected d]" by auto
        with res have "ev = (ev1 @ ev') @ [Collected d]" by simp
        then show "\<exists>ev'. ev = ev' @ [Collected d]" by blast
      qed
      moreover have "\<not> b \<and> k \<le> max_retries \<longrightarrow> Attempt d max_retries \<in> set ev"
        using res IH True by auto
      ultimately show ?thesis by blast
    qed
  qed
qed


lemma progress_backed_mono:
  "progress_backed p0 p tr \<Longrightarrow> set tr \<subseteq> set tr' \<Longrightarrow> completed_dates p' = completed_dates p
     \<Longrightarrow> progress_backed p0 p' tr'"
proof -
  assume pb: "progress_backed p0 p tr" and sub: "set tr \<subseteq> set tr'"
    and same: "completed_dates p' = completed_dates p"
  show "progress_backed p0 p' tr'"
    unfolding progress_backed_def same
  proof
    fix s
    assume "s \<in> set (completed_dates p)"
    with pb have "s \<in> set (completed_dates p0) \<or> backed s tr"
      by (simp add: progress_backed_def)
    moreover have "backed s tr \<Longrightarrow> backed s tr'"
      using sub unfolding backed_def by blast
    ultimately show "s \<in> set (completed_dates p0) \<or> backed s tr'" by blast
  qed
qed

lemma marked_append: "marked (xs @ ys) = marked xs @ marked ys"
  by (simp add: marked_def)

lemma marked_collect_events: "\<forall>e \<in> set ev. is_collect_event e \<Longrightarrow> marked ev = []"
proof (induction ev)
  case Nil
  show ?case by (simp add: marked_def)
next
  case (Cons e ev)
  then have "marked ev = []" by simp
  moreover from Cons.prems have "marked_of e = []" by (cases e) auto
  ultimately show ?case by (simp add: marked_def)
qed

lemma save_progress_inv:
  assumes "run_inv p0 st"
  shows "run_inv p0 (save_progress w st)"
    and "marked (rs_trace (save_progress w st)) = marked (rs_trace st)"
proof -
  let ?p = "rs_progress (save_progress w st)"
  have tr: "rs_trace (save_progress w st) = rs_trace st @ [Disk Torn, Disk (Json ?p)]"
    by (rule save_progress_fields)
  have same: "completed_dates ?p = completed_dates (rs_progress st)"
    by (rule save_progress_fields)
  from assms have pb: "progress_backed p0 (rs_progress st) (rs_trace st)"
    by (simp add: run_inv_def)
  have b1: "progress_backed p0 ?p (rs_trace st @ [Disk Torn])"
    by (rule progress_backed_mono [OF pb _ same]) auto
  have b2: "progress_backed p0 ?p (rs_trace st @ [Disk Torn, Disk (Json ?p)])"
    by (rule progress_backed_mono [OF pb _ same]) auto
  show "run_inv p0 (save_progress w st)"
    using assms b1 b2 unfolding run_inv_def tr
    by (simp add: each_event_append each_event_Cons each_event_Nil after_collection_def
        after_retries_def disk_backed_def)
  show "marked (rs_trace (save_progress w st)) = marked (rs_trace st)"
    unfolding tr by (simp add: marked_def)
qed

lemma record_result_inv:
  assumes inv: "run_inv p0 st"
      and c: "collect_single_date w d 0 (rs_db st) = (b, db', ev)"
      and st2: "st2 = record_result d b (st\<lparr>rs_db := db', rs_trace := rs_trace st @ ev\<rparr>)"
  shows "run_inv p0 st2" and "marked (rs_trace st2) = marked (rs_trace st) @ [d]"
proof -
  note ce = collect_single_date_events [OF c]
  from ce have collect: "\<forall>e \<in> set ev. is_collect_event e" by simp
  let ?m = "if b then MarkedComplete d else MarkedFailed d"
  have tr: "rs_trace st2 = rs_trace st @ ev @ [?m]"
    unfolding st2 by (simp add: record_result_fields)
  have pr: "rs_progress st2 = (if b then mark_complete (strftime d) (rs_progress st)
                               else mark_failed (strftime d) (rs_progress st))"
    unfolding st2 by (simp add: record_result_fields)
  have triv: "\<And>Q. (\<And>pre e. is_collect_event e \<Longrightarrow> Q pre e) \<Longrightarrow> each_event Q ev"
    using collect by (auto intro: each_event_trivial)
  have e1: "each_event (\<lambda>pre. after_collection (rs_trace st @ pre)) ev"
    by (rule triv) (auto simp: after_collection_def)
  have e2: "each_event (\<lambda>pre. after_retries (rs_trace st @ pre)) ev"
    by (rule triv) (auto simp: after_retries_def)
  have e3: "each_event (\<lambda>pre. disk_backed p0 (rs_trace st @ pre)) ev"
    by (rule triv) (auto simp: disk_backed_def)
  have m1: "after_collection (rs_trace st @ ev) ?m"
  proof (cases b)
    case True
    with ce obtain ev' where "ev = ev' @ [Collected d]" by auto
    then have "rs_trace st @ ev = (rs_trace st @ ev') @ [Collected d]" by simp
    with True show ?thesis unfolding after_collection_def by auto
  next
    case False
    then show ?thesis by (simp add: after_collection_def)
  qed
  have m2: "after_retries (rs_trace st @ ev) ?m"
    using ce by (auto simp: after_retries_def)
  have m3: "disk_backed p0 (rs_trace st @ ev) ?m"
    by (simp add: disk_backed_def)
  from inv have pb: "progress_backed p0 (rs_progress st) (rs_trace st)"
    by (simp add: run_inv_def)
  have pb2: "progress_backed p0 (rs_progress st2) (rs_trace st2)"
  proof (cases b)
    case False
    have same: "completed_dates (rs_progress st2) = completed_dates (rs_progress st)"
      using False by (simp add: pr mark_failed_def)
    show ?thesis
      by (rule progress_backed_mono [OF pb _ same]) (auto simp: tr)
  next
    case True
    have cd: "completed_dates (rs_progress st2) = completed_dates (rs_progress st) @ [strftime d]"
      using True by (simp add: pr mark_complete_def Let_def)
    from True ce have "Collected d \<in> set ev" by auto
    then have "backed (strftime d) (rs_trace st2)"
      unfolding tr backed_def using True by auto
    moreover have "progress_backed p0 (rs_progress st) (rs_trace st2)"
      by (rule progress_backed_mono [OF pb _ refl]) (auto simp: tr)
    ultimately show ?thesis
      unfolding progress_backed_def cd by auto
  qed
  show "run_inv p0 st2"
    using inv e1 e2 e3 m1 m2 m3 pb2 unfolding run_inv_def
    by (simp add: tr each_event_append each_event_Cons each_event_Nil)
  show "marked (rs_trace st2) = marked (rs_trace st) @ [d]"
    unfolding tr using marked_collect_events [OF collect]
    by (simp add: marked_append) (simp add: marked_def)
qed

lemma run_date_inv:
  assumes "run_inv p0 st"
  shows "run_inv p0 (run_date w st (i, d))
       \<and> marked (rs_trace (run_date w st (i, d))) = marked (rs_trace st) @ [d]"
proof -
  obtain b db' ev where c: "collect_single_date w d 0 (rs_db st) = (b, db', ev)"
    by (cases "collect_single_date w d 0 (rs_db st)") auto
  let ?st2 = "record_result d b (st\<lparr>rs_db := db', rs_trace := rs_trace st @ ev\<rparr>)"
  note r = record_result_inv [OF assms c refl]
  show ?thesis
    using r save_progress_inv [OF r(1), of w]
    by (simp add: run_date_unfold [OF c] Let_def)
qed

lemma foldl_run_date_inv:
  assumes "run_inv p0 st"
  shows "run_inv p0 (foldl (run_date w) st items)
       \<and> marked (rs_trace (foldl (run_date w) st items)) = marked (rs_trace st) @ map snd items"
  using assms
proof (induction items arbitrary: st)
  case Nil
  then show ?case by simp
next
  case (Cons it items)
  obtain i d where it: "it = (i, d)" by (cases it) auto
  from run_date_inv [OF Cons.prems, of w i d]
  have inv: "run_inv p0 (run_date w st it)"
    and m: "marked (rs_trace (run_date w st it)) = marked (rs_trace st) @ [d]"
    unfolding it by simp_all
  from Cons.IH [OF inv] m show ?case by (simp add: it)
qed

lemma run_dates_inv:
  assumes "run_inv p0 st"
  shows "run_inv p0 (run_dates w all_dates st)
       \<and> marked (rs_trace (run_dates w all_dates st)) = marked (rs_trace st) @ all_dates"
proof -
  let ?items = "zip [1 ..< Suc (length all_dates)] all_dates"
  have len: "length [1 ..< Suc (length all_dates)] = length all_dates"
    by (simp only: length_upt diff_Suc_1)
  have "map snd ?items = all_dates" by (rule map_snd_zip [OF len])
  with foldl_run_date_inv [OF assms, of w ?items]
  have inv: "run_inv p0 (foldl (run_date w) st ?items)"
    and m: "marked (rs_trace (foldl (run_date w) st ?items)) = marked (rs_trace st) @ all_dates"
    by simp_all
  from save_progress_inv [OF inv, of w] m show ?thesis
    by (simp add: run_dates_def)
qed

text \<open>
  Claim C5.  In a run that gets past reading the progress file, the dates whose entry in
  the progress dictionary is updated are the dates to process, each once and in order.
  A date is marked complete directly after \<open>collect_statcast_data\<close> returned for it
  without an exception (so after its commit, when there was something to store), and
  marked failed only after the attempt with retry count \<open>max_retries\<close>.  Every readable
  content the progress file has at any point of the run, hence after an interruption at
  any point, lists as completed only dates that were completed in the file the run
  started from or were collected and marked complete before that content was written.
\<close>

theorem checkpoint_discipline:
  assumes run: "run_comprehensive_backfill w today file db = Inr st"
      and c: "c = init_collector today"
  shows "\<exists>p0. load_progress file = Inr p0
       \<and> marked (rs_trace st)
           = remaining_dates (season_start c) (season_end c) (completed_dates p0)
       \<and> distinct (marked (rs_trace st))
       \<and> (\<forall>pre d post. rs_trace st = pre @ MarkedComplete d # post
             \<longrightarrow> (\<exists>pre'. pre = pre' @ [Collected d]))
       \<and> (\<forall>pre d post. rs_trace st = pre @ MarkedFailed d # post
             \<longrightarrow> Attempt d max_retries \<in> set pre)
       \<and> (\<forall>pre p post. rs_trace st = pre @ Disk (Json p) # post
             \<longrightarrow> (\<forall>s \<in> set (completed_dates p).
                    s \<in> set (completed_dates p0)
                    \<or> (\<exists>d. s = strftime d \<and> Collected d \<in> set pre
                            \<and> MarkedComplete d \<in> set pre)))"
proof -
  from run obtain p0 where load: "load_progress file = Inr p0"
    by (cases "load_progress file") (auto simp: run_comprehensive_backfill_def Let_def)
  let ?dates = "remaining_dates (season_start c) (season_end c) (completed_dates p0)"
  from run load have st: "st = run_dates w ?dates (fresh_state p0 file db)"
    by (simp add: run_comprehensive_backfill_def Let_def c)
  have "run_inv p0 (fresh_state p0 file db)"
    by (simp add: run_inv_def fresh_state_def each_event_Nil progress_backed_def)
  from run_dates_inv [OF this, of w ?dates]
  have inv: "run_inv p0 st" and m: "marked (rs_trace st) = ?dates"
    unfolding st by (simp_all add: fresh_state_def marked_def)
  have "distinct (marked (rs_trace st))"
    unfolding m by (rule remaining_dates_distinct)
  moreover from inv have "\<forall>pre d post. rs_trace st = pre @ MarkedComplete d # post
             \<longrightarrow> (\<exists>pre'. pre = pre' @ [Collected d])"
    unfolding run_inv_def each_event_def after_collection_def by blast
  moreover from inv have "\<forall>pre d post. rs_trace st = pre @ MarkedFailed d # post
             \<longrightarrow> Attempt d max_retries \<in> set pre"
    unfolding run_inv_def each_event_def after_retries_def by blast
  moreover from inv have "\<forall>pre p post. rs_trace st = pre @ Disk (Json p) # post
             \<longrightarrow> (\<forall>s \<in> set (completed_dates p).
                    s \<in> set (completed_dates p0)
                    \<or> (\<exists>d. s = strftime d \<and> Collected d \<in> set pre
                            \<and> MarkedComplete d \<in> set pre))"
    unfolding run_inv_def each_event_def disk_backed_def progress_backed_def backed_def
    by blast
  ultimately show ?thesis using load m by blast
qed

subsection \<open>A batch with one rejected record\<close>

lemma collect_statcast_data_text:
  assumes rt: "strptime_ymd (strftime d) = Some d"
  shows "collect_statcast_data fromiso accepts statcast commit_ok (strftime d) db =
     (case statcast (strftime d) of
        FetchFailed \<Rightarrow> (Inl FetchError, [ErrorCollectingStatcastData])
      | Fetched frame \<Rightarrow>
          if frame = [] then (Inr db, [])
          else (case store_statcast_data fromiso accepts commit_ok frame db of
                  (Inl e, slog) \<Rightarrow> (Inl e, slog @ [ErrorCollectingStatcastData])
                | (Inr db', slog) \<Rightarrow> (Inr db', slog)))"
  using rt by (simp add: collect_statcast_data_def strftime_no_T
      split: fetch.splits prod.splits sum.splits)

lemma store_statcast_data_committed:
  "store_statcast_data fromiso accepts True df db
     = (Inr (upsert_all (stored_rows fromiso accepts df) db), loop_log fromiso accepts 0 df)"
  by (simp add: store_statcast_data_def Let_def store_loop_table store_loop_log)

lemma attempt_no_games:
  assumes rt: "strptime_ymd (strftime d) = Some d"
      and "w_statcast w (strftime d) k Collecting = Fetched []"
      and "w_statcast w (strftime d) k Validating = Fetched []"
  shows "attempt w d k db = (Succeeded, db, [Attempt d k, Collected d])"
proof -
  have c: "collect_statcast_data (w_fromiso w) (w_accepts w)
             (\<lambda>s. w_statcast w s k Collecting) (w_commit_ok w (strftime d) k) (strftime d) db
           = (Inr db, [])"
    using assms(2) by (simp add: collect_statcast_data_text [OF rt])
  have v: "dv_status (validate_date_collection (\<lambda>s. w_statcast w s k Validating) db d) = NoGames"
    using assms(3) by (simp add: validate_date_collection_def)
  show ?thesis
    unfolding attempt_def Let_def c using v by simp
qed

lemma attempt_stored:
  assumes rt: "strptime_ymd (strftime d) = Some d"
      and fetch: "w_statcast w (strftime d) k Collecting = Fetched df" "df \<noteq> []"
      and commit: "w_commit_ok w (strftime d) k"
      and again: "w_statcast w (strftime d) k Validating = Fetched vf" "vf \<noteq> []"
      and db': "db' = upsert_all (stored_rows (w_fromiso w) (w_accepts w) df) db"
  shows "attempt w d k db
     = (if completeness_pct (count_by_date db' d) (length vf) \<ge> 995 / 10
        then Succeeded else NotComplete,
        db', Attempt d k # map Log (loop_log (w_fromiso w) (w_accepts w) 0 df) @ [Collected d])"
proof -
  have c: "collect_statcast_data (w_fromiso w) (w_accepts w)
             (\<lambda>s. w_statcast w s k Collecting) (w_commit_ok w (strftime d) k) (strftime d) db
           = (Inr db', loop_log (w_fromiso w) (w_accepts w) 0 df)"
    using fetch commit db'
    by (simp add: collect_statcast_data_text [OF rt] store_statcast_data_committed)
  have v: "dv_status (validate_date_collection (\<lambda>s. w_statcast w s k Validating) db' d)
      = status_of (995 / 10) (completeness_pct (count_by_date db' d) (length vf))"
    using again by (simp add: validate_date_collection_def Let_def)
  have s: "\<And>t c. status_of t c \<noteq> NoGames"
    "\<And>t c. (status_of t c = Complete) = (c \<ge> t)"
    by (simp_all add: status_of_def)
  show ?thesis
    unfolding attempt_def Let_def c by (simp add: v s)
qed

lemma collect_single_date_succeeded:
  "attempt w d k db = (Succeeded, db', ev) \<Longrightarrow> collect_single_date w d k db = (True, db', ev)"
  by (simp add: collect_single_date.simps [of w d k db])

lemma collect_single_date_retry:
  assumes "attempt w d k db = (NotComplete, db1, ev)" "k < max_retries" "k' = k + 1"
      and "collect_single_date w d k' db1 = (b, db2, ev2)"
  shows "collect_single_date w d k db = (b, db2, ev @ ev2)"
  using assms by (simp add: collect_single_date.simps [of w d k db])

lemma collect_single_date_exhausted:
  assumes "attempt w d k db = (NotComplete, db1, ev)" "\<not> k < max_retries"
  shows "collect_single_date w d k db = (False, db1, ev)"
  using assms by (simp add: collect_single_date.simps [of w d k db])

lemma upsert_same:
  assumes "pitch_id r \<in> keys t"
      and "\<forall>x \<in> set t. pitch_id x = pitch_id r \<longrightarrow> statcast_data x = statcast_data r"
  shows "upsert r t = t"
proof -
  have "map (\<lambda>old. if pitch_id old = pitch_id r
                        then old\<lparr>statcast_data := statcast_data r\<rparr> else old) t = t"
    using assms(2) by (induction t) auto
  with assms(1) show ?thesis by (simp add: upsert_def keys_def)
qed

lemma upsert_all_same:
  assumes "\<forall>r \<in> set rows. pitch_id r \<in> keys t
             \<and> (\<forall>x \<in> set t. pitch_id x = pitch_id r \<longrightarrow> statcast_data x = statcast_data r)"
  shows "upsert_all rows t = t"
  using assms
proof (induction rows)
  case Nil
  show ?case by (simp add: upsert_all_Nil)
next
  case (Cons r rows)
  from Cons.prems have "pitch_id r \<in> keys t"
    and "\<forall>x \<in> set t. pitch_id x = pitch_id r \<longrightarrow> statcast_data x = statcast_data r"
    by simp_all
  then have u: "upsert r t = t" by (rule upsert_same)
  from Cons.prems have "\<forall>r \<in> set rows. pitch_id r \<in> keys t
             \<and> (\<forall>x \<in> set t. pitch_id x = pitch_id r \<longrightarrow> statcast_data x = statcast_data r)"
    by simp
  from Cons.IH [OF this] show ?case by (simp add: upsert_all_Cons u)
qed

lemma upsert_all_fresh:
  assumes "distinct (map pitch_id rows)" "pitch_id ` set rows \<inter> keys db = {}"
  shows "upsert_all rows db = db @ rows"
  using assms
proof (induction rows arbitrary: db)
  case Nil
  show ?case by (simp add: upsert_all_Nil)
next
  case (Cons r rows)
  from Cons.prems have fresh: "pitch_id r \<notin> keys db" by auto
  then have u: "upsert r db = db @ [r]" by (simp add: upsert_def keys_def)
  have "pitch_id ` set rows \<inter> keys (db @ [r]) = {}"
    using Cons.prems by (auto simp: keys_def)
  with Cons.IH [of "db @ [r]"] Cons.prems show ?case
    by (simp add: upsert_all_Cons u)
qed

lemma restore_unchanged:
  assumes "distinct (map pitch_id rows)" "pitch_id ` set rows \<inter> keys db = {}"
  shows "upsert_all rows (db @ rows) = db @ rows"
proof (rule upsert_all_same)
  show "\<forall>r \<in> set rows. pitch_id r \<in> keys (db @ rows)
          \<and> (\<forall>x \<in> set (db @ rows). pitch_id x = pitch_id r
                \<longrightarrow> statcast_data x = statcast_data r)"
  proof (intro ballI conjI impI)
    fix r assume r: "r \<in> set rows"
    then show "pitch_id r \<in> keys (db @ rows)" by (auto simp: keys_def)
  next
    fix r x
    assume r: "r \<in> set rows" and x: "x \<in> set (db @ rows)" and same: "pitch_id x = pitch_id r"
    from assms(2) r same have "x \<notin> set db" by (auto simp: keys_def)
    with x have xr: "x \<in> set rows" by simp
    from assms(1) have "inj_on pitch_id (set rows)" by (simp add: distinct_map)
    from inj_onD [OF this same xr r] show "statcast_data x = statcast_data r" by simp
  qed
qed

lemma make_row_warnings: "\<forall>e \<in> set (snd (make_row fromiso row)). \<not> is_dropped e"
proof -
  have "\<And>v. \<forall>e \<in> set (snd (convert_to_date fromiso v)). \<not> is_dropped e"
  proof -
    fix v show "\<forall>e \<in> set (snd (convert_to_date fromiso v)). \<not> is_dropped e"
      by (cases v) (auto split: option.splits)
  qed
  then show ?thesis by (simp add: make_row_def Let_def)
qed

lemma dropped_loop_log:
  "dropped_records (loop_log fromiso accepts n df)
     = length (filter (\<lambda>r. \<not> accepts r) (map (\<lambda>row. fst (make_row fromiso row)) df))"
proof (induction df arbitrary: n)
  case Nil
  show ?case by (simp add: dropped_records_def)
next
  case (Cons row df)
  have "filter is_dropped (snd (make_row fromiso row)) = []"
    using make_row_warnings [of fromiso row] by (simp add: filter_empty_conv)
  with Cons.IH [of "n + 1"] show ?case by (simp add: dropped_records_def)
qed


lemma completeness_pct_pos:
  "0 < e \<Longrightarrow> completeness_pct a e = of_nat a / of_nat e * 100"
  by (simp add: completeness_pct_def)

lemma almost_complete_iff:
  assumes "0 < n"
  shows "(completeness_pct (n - 1) n \<ge> 995 / 10) = (200 \<le> n)"
proof -
  have pos: "(0::rat) < of_nat n" using assms by simp
  have "(completeness_pct (n - 1) n \<ge> 995 / 10)
      = ((995 / 10 :: rat) \<le> of_nat (n - 1) / of_nat n * 100)"
    using assms by (simp add: completeness_pct_def)
  also have "\<dots> = ((995 :: rat) * of_nat n \<le> 1000 * of_nat (n - 1))"
    using pos by (simp add: field_simps)
  also have "\<dots> = ((of_nat (995 * n) :: rat) \<le> of_nat (1000 * (n - 1)))"
    by simp
  also have "\<dots> = (995 * n \<le> 1000 * (n - 1))"
    by (simp only: of_nat_le_iff)
  also have "\<dots> = (200 \<le> n)" using assms by arith
  finally show ?thesis .
qed

lemma one_rejected_record:
  assumes rt: "strptime_ymd (strftime d) = Some d"
      and upstream: "\<forall>k ph. w_statcast w (strftime d) k ph = Fetched df"
      and commits: "\<forall>k. w_commit_ok w (strftime d) k"
      and one: "length (filter (\<lambda>r. \<not> w_accepts w r)
                          (map (\<lambda>row. fst (make_row (w_fromiso w) row)) df)) = 1"
      and rows: "rows = stored_rows (w_fromiso w) (w_accepts w) df"
      and fresh: "distinct (map pitch_id rows)" "pitch_id ` set rows \<inter> keys db = {}"
      and dated: "\<forall>r \<in> set rows. game_date r = Some d"
      and empty_day: "count_by_date db d = 0"
      and n: "n = length df"
      and lg: "lg = loop_log (w_fromiso w) (w_accepts w) 0 df"
  shows "store_statcast_data (w_fromiso w) (w_accepts w) True df db = (Inr (db @ rows), lg)"
    and "length rows = n - 1"
    and "count_by_date (db @ rows) d = n - 1"
    and "dropped_records lg = 1"
    and "dv_status (validate_date_collection (\<lambda>s. w_statcast w s k Validating) (db @ rows) d)
           = (if 200 \<le> n then Complete else if 2 \<le> n then Incomplete else Missing)"
    and "collect_single_date w d 0 db
           = (200 \<le> n, db @ rows,
              concat (map (\<lambda>k. Attempt d k # map Log lg @ [Collected d])
                        (if 200 \<le> n then [0] else [0, 1, 2, 3])))"
proof -
  let ?all = "map (\<lambda>row. fst (make_row (w_fromiso w) row)) df"
  have "length (filter (w_accepts w) ?all) + length (filter (\<lambda>r. \<not> w_accepts w r) ?all)
      = length ?all"
    by (rule sum_length_filter_compl)
  with one show len: "length rows = n - 1"
    by (simp add: rows stored_rows_def n)
  from one have "?all \<noteq> []" by auto
  then have pos: "0 < n" and nonempty: "df \<noteq> []" by (simp_all add: n)
  have first: "upsert_all rows db = db @ rows"
    using fresh by (rule upsert_all_fresh)
  have again: "upsert_all rows (db @ rows) = db @ rows"
    using fresh by (rule restore_unchanged)
  show "store_statcast_data (w_fromiso w) (w_accepts w) True df db = (Inr (db @ rows), lg)"
    by (simp add: store_statcast_data_committed rows [symmetric] first lg)
  have "filter (\<lambda>r. game_date r = Some d) rows = rows"
    using dated by (simp add: filter_id_conv)
  with empty_day show count: "count_by_date (db @ rows) d = n - 1"
    by (simp add: count_by_date_def len)
  show "dropped_records lg = 1"
    unfolding lg dropped_loop_log by (rule one)
  have c: "(completeness_pct (count_by_date (db @ rows) d) (length df) \<ge> 995 / 10) = (200 \<le> n)"
    using almost_complete_iff [OF pos] by (simp add: count n)
  have cpos: "(completeness_pct (n - 1) n > 0) = (2 \<le> n)"
  proof -
    have sign: "\<And>a b :: rat. 0 < b \<Longrightarrow> (0 < a / b * 100) = (0 < a)"
      by (simp add: zero_less_mult_iff zero_less_divide_iff)
    have "(completeness_pct (n - 1) n > 0) = ((0 :: rat) < of_nat (n - 1) / of_nat n * 100)"
      by (simp only: completeness_pct_pos [OF pos])
    also have "\<dots> = ((0 :: rat) < of_nat (n - 1))"
      using pos by (intro sign) simp
    also have "\<dots> = (0 < n - 1)" by (simp only: of_nat_0_less_iff)
    also have "\<dots> = (2 \<le> n)" by arith
    finally show ?thesis .
  qed
  show "dv_status (validate_date_collection (\<lambda>s. w_statcast w s k Validating) (db @ rows) d)
           = (if 200 \<le> n then Complete else if 2 \<le> n then Incomplete else Missing)"
    using upstream nonempty c cpos
    by (simp add: validate_date_collection_def Let_def status_of_def count n)
  have a: "\<And>k db0. upsert_all rows db0 = db @ rows \<Longrightarrow>
      attempt w d k db0 = (if 200 \<le> n then Succeeded else NotComplete, db @ rows,
                            Attempt d k # map Log lg @ [Collected d])"
  proof -
    fix k db0 assume u: "upsert_all rows db0 = db @ rows"
    have "attempt w d k db0
      = (if completeness_pct (count_by_date (db @ rows) d) (length df) \<ge> 995 / 10
         then Succeeded else NotComplete,
         db @ rows, Attempt d k # map Log (loop_log (w_fromiso w) (w_accepts w) 0 df)
                      @ [Collected d])"
    proof (rule attempt_stored [OF rt _ nonempty _ _ nonempty])
      show "w_statcast w (strftime d) k Collecting = Fetched df" using upstream by simp
      show "w_commit_ok w (strftime d) k" using commits by simp
      show "w_statcast w (strftime d) k Validating = Fetched df" using upstream by simp
      show "db @ rows = upsert_all (stored_rows (w_fromiso w) (w_accepts w) df) db0"
        using u by (simp add: rows)
    qed
    then show "attempt w d k db0 = (if 200 \<le> n then Succeeded else NotComplete, db @ rows,
                            Attempt d k # map Log lg @ [Collected d])"
      by (simp only: c lg)
  qed
  show "collect_single_date w d 0 db
           = (200 \<le> n, db @ rows,
              concat (map (\<lambda>k. Attempt d k # map Log lg @ [Collected d])
                        (if 200 \<le> n then [0] else [0, 1, 2, 3])))"
  proof (cases "200 \<le> n")
    case True
    with a [OF first, of 0] have "attempt w d 0 db
        = (Succeeded, db @ rows, Attempt d 0 # map Log lg @ [Collected d])" by simp
    from collect_single_date_succeeded [OF this] True show ?thesis by simp
  next
    case False
    with a have a': "\<And>k db0. upsert_all rows db0 = db @ rows \<Longrightarrow>
      attempt w d k db0 = (NotComplete, db @ rows, Attempt d k # map Log lg @ [Collected d])"
      by simp
    have c3: "collect_single_date w d 3 (db @ rows)
        = (False, db @ rows, Attempt d 3 # map Log lg @ [Collected d])"
      by (rule collect_single_date_exhausted [OF a' [OF again]]) (simp add: max_retries_def)
    have c2: "collect_single_date w d 2 (db @ rows)
        = (False, db @ rows, (Attempt d 2 # map Log lg @ [Collected d])
                              @ Attempt d 3 # map Log lg @ [Collected d])"
      by (rule collect_single_date_retry [OF a' [OF again] _ _ c3]) (simp_all add: max_retries_def)
    have c1: "collect_single_date w d 1 (db @ rows)
        = (False, db @ rows, (Attempt d 1 # map Log lg @ [Collected d])
                              @ (Attempt d 2 # map Log lg @ [Collected d])
                              @ Attempt d 3 # map Log lg @ [Collected d])"
      by (rule collect_single_date_retry [OF a' [OF again] _ _ c2]) (simp_all add: max_retries_def)
    have c0: "collect_single_date w d 0 db
        = (False, db @ rows, (Attempt d 0 # map Log lg @ [Collected d])
                              @ (Attempt d 1 # map Log lg @ [Collected d])
                              @ (Attempt d 2 # map Log lg @ [Collected d])
                              @ Attempt d 3 # map Log lg @ [Collected d])"
      by (rule collect_single_date_retry [OF a' [OF first] _ _ c1]) (simp_all add: max_retries_def)
    from False c0 show ?thesis by simp
  qed
qed

lemma run_log_attempt: "run_log (Attempt d k # map Log lg @ [Collected d]) = lg"
  by (simp add: run_log_def) (induction lg; simp)

lemma run_log_append: "run_log (xs @ ys) = run_log xs @ run_log ys"
  by (simp add: run_log_def)

lemma dropped_records_append:
  "dropped_records (xs @ ys) = dropped_records xs + dropped_records ys"
  by (simp add: dropped_records_def)

lemma run_date_result:
  assumes c: "collect_single_date w d 0 (rs_db st) = (b, db', ev)"
  shows "rs_db (run_date w st (i, d)) = db'"
    and "completed_dates (rs_progress (run_date w st (i, d)))
           = (if b then completed_dates (rs_progress st) @ [strftime d]
              else completed_dates (rs_progress st))"
    and "\<not> b \<Longrightarrow> strftime d \<in> set (failed_dates (rs_progress (run_date w st (i, d))))"
    and "run_log (rs_trace (run_date w st (i, d))) = run_log (rs_trace st) @ run_log ev"
    and "marked (rs_trace (run_date w st (i, d))) = marked (rs_trace st) @ marked ev @ [d]"
proof -
  let ?st2 = "record_result d b (st\<lparr>rs_db := db', rs_trace := rs_trace st @ ev\<rparr>)"
  have u: "run_date w st (i, d) = (if i mod 10 = 0 then save_progress w ?st2 else ?st2)"
    by (simp add: run_date_unfold [OF c] Let_def)
  show "rs_db (run_date w st (i, d)) = db'"
    by (simp add: u save_progress_fields record_result_fields)
  show "completed_dates (rs_progress (run_date w st (i, d)))
           = (if b then completed_dates (rs_progress st) @ [strftime d]
              else completed_dates (rs_progress st))"
    by (simp add: u save_progress_fields record_result_fields mark_complete_def mark_failed_def
        Let_def)
  show "\<not> b \<Longrightarrow> strftime d \<in> set (failed_dates (rs_progress (run_date w st (i, d))))"
    by (simp add: u save_progress_fields record_result_fields mark_failed_def)
  show "run_log (rs_trace (run_date w st (i, d))) = run_log (rs_trace st) @ run_log ev"
    by (simp add: u save_progress_fields record_result_fields run_log_append)
       (simp add: run_log_def)
  show "marked (rs_trace (run_date w st (i, d))) = marked (rs_trace st) @ marked ev @ [d]"
    by (simp add: u save_progress_fields record_result_fields marked_append)
       (simp add: marked_def)
qed

text \<open>
  Claim C6, as the code has it.  Take a date whose upstream frame has \<open>n\<close> records of
  which the table rejects exactly one, the others having distinct natural keys that are
  new to the table and the date as their game date, on which the table has no row yet.
  Then each pass of \<open>store_statcast_data\<close> skips the rejected record with one warning
  and stores the others: \<open>n - 1\<close> rows are added and the count of the date is \<open>n - 1\<close>.
  The validation that follows compares this count with \<open>n\<close>: the date is marked
  complete, after one pass and with one dropped-record entry in the log, only when
  \<open>n \<ge> 200\<close> (99.5 percent); otherwise the date is collected four times, the log has
  four such entries, and the date is marked failed.
\<close>

theorem partial_batch:
  assumes rt: "strptime_ymd (strftime d) = Some d"
      and upstream: "\<forall>k ph. w_statcast w (strftime d) k ph = Fetched df"
      and commits: "\<forall>k. w_commit_ok w (strftime d) k"
      and one: "length (filter (\<lambda>r. \<not> w_accepts w r)
                          (map (\<lambda>row. fst (make_row (w_fromiso w) row)) df)) = 1"
      and rows: "rows = stored_rows (w_fromiso w) (w_accepts w) df"
      and fresh: "distinct (map pitch_id rows)" "pitch_id ` set rows \<inter> keys (rs_db st) = {}"
      and dated: "\<forall>r \<in> set rows. game_date r = Some d"
      and empty_day: "count_by_date (rs_db st) d = 0"
      and n: "n = length df"
      and st': "st' = run_date w st (i, d)"
  shows "fst (store_statcast_data (w_fromiso w) (w_accepts w) True df (rs_db st))
           = Inr (rs_db st @ rows)
       \<and> dropped_records (snd (store_statcast_data (w_fromiso w) (w_accepts w) True df
                                   (rs_db st))) = 1
       \<and> length rows = n - 1
       \<and> rs_db st' = rs_db st @ rows
       \<and> count_by_date (rs_db st') d = n - 1
       \<and> completed_dates (rs_progress st')
           = (if 200 \<le> n then completed_dates (rs_progress st) @ [strftime d]
              else completed_dates (rs_progress st))
       \<and> (n < 200 \<longrightarrow> strftime d \<in> set (failed_dates (rs_progress st')))
       \<and> dropped_records (run_log (rs_trace st'))
           = dropped_records (run_log (rs_trace st)) + (if 200 \<le> n then 1 else 4)"
proof -
  define lg where "lg = loop_log (w_fromiso w) (w_accepts w) 0 df"
  note r = one_rejected_record [OF rt upstream commits one rows fresh dated empty_day n lg_def]
  note d = run_date_result [OF r(6), of i]
  have seg: "\<And>k. dropped_records (run_log (Attempt d k # map Log lg @ [Collected d])) = 1"
    by (simp only: run_log_attempt r(4))
  have log: "dropped_records (run_log (concat (map (\<lambda>k. Attempt d k # map Log lg @ [Collected d])
                        (if 200 \<le> n then [0] else [0, 1, 2, 3])))) = (if 200 \<le> n then 1 else 4)"
    using seg by (simp add: run_log_append dropped_records_append del: append.simps)
  have "dropped_records (run_log (rs_trace st'))
           = dropped_records (run_log (rs_trace st)) + (if 200 \<le> n then 1 else 4)"
    unfolding st' d(4) dropped_records_append log ..
  moreover have "completed_dates (rs_progress st')
           = (if 200 \<le> n then completed_dates (rs_progress st) @ [strftime d]
              else completed_dates (rs_progress st))"
    unfolding st' d(2) ..
  moreover have "n < 200 \<longrightarrow> strftime d \<in> set (failed_dates (rs_progress st'))"
    unfolding st' using d(3) by simp
  moreover have "rs_db st' = rs_db st @ rows" unfolding st' by (rule d(1))
  ultimately show ?thesis using r(1-4) by simp
qed

end
